theory Spec2Isabelle
  imports Main
begin

section \<open>Strings as the handlers use them\<close>

text \<open>
  Python \<open>str\<close> values are modelled as \<open>string\<close> (character lists) and file
  contents as byte lists. The path separator of \<open>ntpath\<close> is the backslash, written
  \<open>CHR 0x5C\<close>.
\<close>

type_synonym bytes = "char list"

definition sep :: char where
  "sep = CHR 0x5C"

definition altsep :: char where
  "altsep = CHR ''/''"

definition colon :: char where
  "colon = CHR '':''"

definition seps :: "char list" where
  "seps = [sep, altsep]"

definition lower_char :: "char \<Rightarrow> char" where
  "lower_char c =
     (case map_of (zip ''ABCDEFGHIJKLMNOPQRSTUVWXYZ'' ''abcdefghijklmnopqrstuvwxyz'') c of
        Some d \<Rightarrow> d
      | None \<Rightarrow> c)"

definition upper_char :: "char \<Rightarrow> char" where
  "upper_char c =
     (case map_of (zip ''abcdefghijklmnopqrstuvwxyz'' ''ABCDEFGHIJKLMNOPQRSTUVWXYZ'') c of
        Some d \<Rightarrow> d
      | None \<Rightarrow> c)"

definition str_lower :: "string \<Rightarrow> string" where
  "str_lower s = map lower_char s"

definition str_upper :: "string \<Rightarrow> string" where
  "str_upper s = map upper_char s"

text \<open>\<open>s.endswith(suffix)\<close>.\<close>

definition endswith :: "string \<Rightarrow> string \<Rightarrow> bool" where
  "endswith s suffix =
     (length suffix \<le> length s \<and> drop (length s - length suffix) s = suffix)"

text \<open>\<open>s.find(c, start)\<close> for a one-character needle; \<open>None\<close> stands for \<open>-1\<close>.\<close>

definition find_from :: "string \<Rightarrow> char \<Rightarrow> nat \<Rightarrow> nat option" where
  "find_from s c start =
     (if c \<in> set (drop start s)
      then Some (start + length (takeWhile (\<lambda>x. x \<noteq> c) (drop start s)))
      else None)"

section \<open>\<open>os.path\<close> on the host of the application\<close>

text \<open>
  \<open>BASE_DIR = "D:\\TV"\<close> and the encoder path \<open>C:\\ffmpeg-...\\ffmpeg.exe\<close> fix the host
  as Windows, where \<open>os.path\<close> is \<open>ntpath\<close>. \<open>splitdrive\<close> and \<open>join\<close> follow
  the text of \<open>ntpath.py\<close> of CPython 3.11, \<open>join\<close> for the two arguments every
  handler passes.
\<close>

definition unc_prefix :: string where
  "unc_prefix = [sep, sep, CHR ''?'', sep, CHR ''U'', CHR ''N'', CHR ''C'', sep]"

definition splitdrive :: "string \<Rightarrow> string \<times> string" where
  "splitdrive p =
     (if 2 \<le> length p then
        (let normp = map (\<lambda>c. if c = altsep then sep else c) p in
         if take 2 normp = [sep, sep] then
           (let start = (if str_upper (take 8 normp) = unc_prefix then 8 else 2) in
            case find_from normp sep start of
              None \<Rightarrow> (p, [])
            | Some index \<Rightarrow>
                (case find_from normp sep (index + 1) of
                   None \<Rightarrow> (p, [])
                 | Some index2 \<Rightarrow> (take index2 p, drop index2 p)))
         else if take 1 (drop 1 normp) = [colon] then (take 2 p, drop 2 p)
         else ([], p))
      else ([], p))"

definition os_path_join :: "string \<Rightarrow> string \<Rightarrow> string" where
  "os_path_join path p =
     (let (result_drive, result_path) = splitdrive path;
          (p_drive, p_path) = splitdrive p;
          (result_drive, result_path) =
            (if p_path \<noteq> [] \<and> hd p_path \<in> set seps then
               ((if p_drive \<noteq> [] \<or> result_drive = [] then p_drive else result_drive), p_path)
             else if p_drive \<noteq> [] \<and> p_drive \<noteq> result_drive
                     \<and> str_lower p_drive \<noteq> str_lower result_drive then
               (p_drive, p_path)
             else
               (let result_drive =
                      (if p_drive \<noteq> [] \<and> p_drive \<noteq> result_drive then p_drive
                       else result_drive);
                    result_path =
                      (if result_path \<noteq> [] \<and> last result_path \<notin> set seps
                       then result_path @ [sep] else result_path)
                in (result_drive, result_path @ p_path)))
      in if result_path \<noteq> [] \<and> hd result_path \<notin> set seps
            \<and> result_drive \<noteq> [] \<and> last result_drive \<noteq> colon
         then result_drive @ [sep] @ result_path
         else result_drive @ result_path)"

definition BASE_DIR :: string where
  "BASE_DIR = ''D:'' @ [sep] @ ''TV''"

section \<open>The file system\<close>

text \<open>
  A location is a drive and the list of names leading from the drive's root to a node.
  The operating system turns a path string into a location the way Windows does:
  both separators split the path, empty and \<open>.\<close> components are dropped, and a
  \<open>..\<close> component removes the name before it (at the root of a drive it is dropped).
  A path with no root is taken from the current directory. Links and the
  case-insensitivity of names are not modelled.
\<close>

datatype node = File bytes | Directory

type_synonym location = "string \<times> string list"

datatype enc_event = Out bytes | Err nat | ReadError

record os_env =
  nodes :: "location \<Rightarrow> node option"
  cwd :: location
  mime_types :: "string \<Rightarrow> string option"
  encoder :: "string list \<Rightarrow> enc_event list option"
  pipe_capacity :: nat
  pipe_accepts :: "nat \<Rightarrow> nat \<Rightarrow> bool"

fun split_seps :: "string \<Rightarrow> string list" where
  "split_seps [] = [[]]"
| "split_seps (c # cs) =
     (if c \<in> set seps then [] # split_seps cs
      else (case split_seps cs of
              [] \<Rightarrow> [[c]]
            | w # ws \<Rightarrow> (c # w) # ws))"

definition walk_step :: "string list \<Rightarrow> string \<Rightarrow> string list" where
  "walk_step stack c =
     (if c = [] \<or> c = ''.'' then stack
      else if c = ''..'' then butlast stack
      else stack @ [c])"

definition walk :: "string list \<Rightarrow> string list \<Rightarrow> string list" where
  "walk base comps = foldl walk_step base comps"

definition norm_drive :: "string \<Rightarrow> string" where
  "norm_drive d = str_upper (map (\<lambda>c. if c = altsep then sep else c) d)"

definition locate :: "os_env \<Rightarrow> string \<Rightarrow> location" where
  "locate env path =
     (let (drive, rest) = splitdrive path;
          comps = split_seps rest
      in if rest \<noteq> [] \<and> hd rest \<in> set seps then
           ((if drive = [] then fst (cwd env) else norm_drive drive), walk [] comps)
         else if drive = [] \<or> norm_drive drive = fst (cwd env) then
           (fst (cwd env), walk (snd (cwd env)) comps)
         else (norm_drive drive, walk [] comps))"

definition os_path_exists :: "os_env \<Rightarrow> string \<Rightarrow> bool" where
  "os_path_exists env path = (nodes env (locate env path) \<noteq> None)"

definition os_path_isfile :: "os_env \<Rightarrow> string \<Rightarrow> bool" where
  "os_path_isfile env path =
     (case nodes env (locate env path) of Some (File _) \<Rightarrow> True | _ \<Rightarrow> False)"

text \<open>\<open>mimetypes.guess_type(path)[0]\<close>: a lookup in the host's table of types.\<close>

definition guess_type :: "os_env \<Rightarrow> string \<Rightarrow> string option" where
  "guess_type env path = mime_types env path"

text \<open>The library root as a location, and what it means to lie inside it.\<close>

definition root_location :: location where
  "root_location = (''D:'', [''TV''])"

definition inside_root :: "location \<Rightarrow> bool" where
  "inside_root loc =
     (fst loc = fst root_location
      \<and> take (length (snd root_location)) (snd loc) = snd root_location)"

section \<open>The request handlers\<close>

text \<open>
  A handler returns what it hands to Flask: a body with a status
  (\<open>return "File not found", 404\<close>), a call of \<open>send_file\<close> with its path and MIME
  type, or a \<open>Response\<close> around a generator. The generator \<open>generate()\<close> of
  \<open>stream\<close> closes over \<open>full_path\<close>; it has not run when the handler returns.
\<close>

datatype generator = Created string | Suspended nat | Reading nat | Done

datatype action =
    Reply string nat
  | SendFile string string
  | SendFileOr500 string string
  | StreamBody generator string "(string \<times> string) list"
  | ListDirectory string

definition video :: "os_env \<Rightarrow> string \<Rightarrow> action" where
  "video env filepath =
     (let full_path = os_path_join BASE_DIR filepath in
      if \<not> os_path_exists env full_path \<or> \<not> os_path_isfile env full_path
      then Reply ''File not found'' 404
      else
        (let mime_type = (case guess_type env full_path of
                            Some m \<Rightarrow> m
                          | None \<Rightarrow> ''video/mp4'')
         in SendFile full_path mime_type))"

definition stream :: "os_env \<Rightarrow> string \<Rightarrow> action" where
  "stream env filepath =
     (let full_path = os_path_join BASE_DIR filepath in
      if \<not> os_path_exists env full_path \<or> \<not> os_path_isfile env full_path
      then Reply ''File not found'' 404
      else StreamBody (Created full_path) ''video/mp4'' [(''Accept-Ranges'', ''bytes'')])"

text \<open>
  \<open>browse\<close> up to line 30: a missing path, a file handed to \<open>send_file\<close>, or the
  directory whose entries lines 30--56 list and render.
\<close>

definition browse :: "os_env \<Rightarrow> string \<Rightarrow> action" where
  "browse env subpath =
     (let full_path = os_path_join BASE_DIR subpath in
      if \<not> os_path_exists env full_path then Reply ''Path not found'' 404
      else if os_path_isfile env full_path then
        (let mime_type = (case guess_type env full_path of
                            Some m \<Rightarrow> m
                          | None \<Rightarrow> ''video/mp4'')
         in SendFile full_path mime_type)
      else ListDirectory full_path)"

text \<open>
  \<open>thumb\<close>: \<open>send_file\<close> stands inside \<open>try\<close>/\<open>except Exception\<close>, which answers
  \<open>('', 500)\<close>. The \<open>print\<close> calls and the unused \<open>folder_path\<close> are left out.
\<close>

definition thumb :: "os_env \<Rightarrow> string \<Rightarrow> action" where
  "thumb env thumbpath =
     (if endswith thumbpath ''/index.jpg'' then
        (let img_path = os_path_join BASE_DIR thumbpath in
         if os_path_exists env img_path then
           (let mime_type = (case guess_type env img_path of
                               Some m \<Rightarrow> m
                             | None \<Rightarrow> ''image/jpeg'')
            in SendFileOr500 img_path mime_type)
         else Reply [] 404)
      else Reply [] 404)"

text \<open>The path a handler's answer reads from, when it reads one.\<close>

fun served_path :: "action \<Rightarrow> string option" where
  "served_path (Reply _ _) = None"
| "served_path (SendFile path _) = Some path"
| "served_path (SendFileOr500 path _) = Some path"
| "served_path (StreamBody (Created path) _ _) = Some path"
| "served_path (StreamBody _ _ _) = None"
| "served_path (ListDirectory path) = Some path"

text \<open>
  An answer is confined when it is a refusal (403 or 404) or the path it reads names a
  location inside the library root.
\<close>

fun refused :: "action \<Rightarrow> bool" where
  "refused (Reply text st) = (st = 403 \<or> st = 404)"
| "refused a = False"

definition confined :: "os_env \<Rightarrow> action \<Rightarrow> bool" where
  "confined env a =
     (case served_path a of
        None \<Rightarrow> refused a
      | Some path \<Rightarrow> inside_root (locate env path))"

section \<open>The encoder process and its pipes\<close>

text \<open>
  \<open>subprocess.Popen(command, stdout=PIPE, stderr=PIPE)\<close> starts a process with two
  pipes. What the encoder does is given by the host (\<open>encoder\<close>): the events it goes
  through, writing bytes to its standard output (\<open>Out\<close>), writing a number of bytes
  to its standard error (\<open>Err\<close>), or failing so that the pending read raises
  (\<open>ReadError\<close>). \<open>None\<close> means the binary cannot be launched and \<open>Popen\<close> raises.
  A write of \<open>k\<close> bytes to standard error, into a pipe that holds \<open>fill\<close> unread
  bytes, goes through when the pipe has room for it and the host accepts it
  (\<open>pipe_accepts\<close>: a pipe hands out its buffer in pages, so a write can have to wait
  before the byte count reaches the capacity). Otherwise the encoder blocks until
  somebody reads the pipe.
\<close>

record proc =
  cmd :: "string list"
  script :: "enc_event list"
  stderr_fill :: nat
  running :: bool

type_synonym world = "proc list"

definition FFMPEG :: string where
  "FFMPEG = ''C:'' @ [sep] @ ''ffmpeg-2025-11-17-git-e94439e49b-full_build'' @ [sep]
            @ ''bin'' @ [sep] @ ''ffmpeg.exe''"

definition command :: "string \<Rightarrow> string list" where
  "command full_path =
     [FFMPEG, ''-i'', full_path, ''-c:v'', ''libx264'', ''-c:a'', ''aac'',
      ''-preset'', ''ultrafast'', ''-b:v'', ''500k'', ''-b:a'', ''96k'', ''-f'', ''mp4'',
      ''-movflags'', ''frag_keyframe'', ''-'']"

definition CHUNK :: nat where
  "CHUNK = 1024 * 1024"

definition Popen :: "os_env \<Rightarrow> world \<Rightarrow> string list \<Rightarrow> (world \<times> nat) option" where
  "Popen env w c =
     (case encoder env c of
        None \<Rightarrow> None
      | Some evs \<Rightarrow>
          Some (w @ [\<lparr>cmd = c, script = evs, stderr_fill = 0, running = True\<rparr>], length w))"

definition admits :: "os_env \<Rightarrow> nat \<Rightarrow> nat \<Rightarrow> bool" where
  "admits env fill k = (fill + k \<le> pipe_capacity env \<and> pipe_accepts env fill k)"

definition terminate :: "world \<Rightarrow> nat \<Rightarrow> world" where
  "terminate w pid = w[pid := (w ! pid)\<lparr>running := False\<rparr>]"

text \<open>
  \<open>proc.stdout.read(n)\<close> on the buffered pipe returns once \<open>n\<close> bytes have arrived
  or the encoder has closed its output; it returns \<open>b''\<close> only at the end of the
  output. \<open>pump\<close> lets the encoder run until then. Nothing in the application reads
  \<open>proc.stderr\<close>, so a write that finds the pipe too full stays pending: the encoder
  is \<open>Blocked\<close> and the \<open>read\<close> does not return.
\<close>

datatype read_result =
    Data bytes "enc_event list" nat
  | Failed "enc_event list" nat
  | Blocked "enc_event list" nat

fun pump ::
  "nat \<Rightarrow> (nat \<Rightarrow> nat \<Rightarrow> bool) \<Rightarrow> enc_event list \<Rightarrow> nat \<Rightarrow> bytes \<Rightarrow> read_result" where
  "pump n a [] fill acc = Data acc [] fill"
| "pump n a (Out bs # evs) fill acc =
     (if n \<le> length acc + length bs
      then Data (take n (acc @ bs)) (Out (drop (n - length acc) bs) # evs) fill
      else pump n a evs fill (acc @ bs))"
| "pump n a (Err k # evs) fill acc =
     (if a fill k then pump n a evs (fill + k) acc
      else Blocked (Err k # evs) fill)"
| "pump n a (ReadError # evs) fill acc = Failed evs fill"

text \<open>
  Where the encoder's run leads when its standard output is read to the end and its
  standard error is never read: it completes, a read fails, or it stalls on a write
  to standard error. \<open>reach\<close> counts the bytes of standard output it produces
  before that.
\<close>

datatype fate = Completes | Fails | Stalls

fun fate_of :: "(nat \<Rightarrow> nat \<Rightarrow> bool) \<Rightarrow> nat \<Rightarrow> enc_event list \<Rightarrow> fate" where
  "fate_of a fill [] = Completes"
| "fate_of a fill (Out bs # evs) = fate_of a fill evs"
| "fate_of a fill (Err k # evs) = (if a fill k then fate_of a (fill + k) evs else Stalls)"
| "fate_of a fill (ReadError # evs) = Fails"

fun reach :: "(nat \<Rightarrow> nat \<Rightarrow> bool) \<Rightarrow> nat \<Rightarrow> enc_event list \<Rightarrow> nat" where
  "reach a fill [] = 0"
| "reach a fill (Out bs # evs) = length bs + reach a fill evs"
| "reach a fill (Err k # evs) = (if a fill k then reach a (fill + k) evs else 0)"
| "reach a fill (ReadError # evs) = 0"

section \<open>The generator of \<open>stream\<close>\<close>

text \<open>
  \<open>generate()\<close> is a generator: its body starts at the first \<open>next\<close>, stops at each
  \<open>yield\<close>, and is left through \<open>finally\<close> whichever way it ends. \<open>Created\<close> is the
  generator before its first \<open>next\<close>, \<open>Suspended pid\<close> the generator stopped at
  \<open>yield data\<close> with \<open>proc\<close> the process \<open>pid\<close>, \<open>Reading pid\<close> the generator
  inside a \<open>read\<close> that does not return, and \<open>Done\<close> the finished generator.
\<close>

datatype step = Yield bytes | StopIteration | Raise | Closed | NoReturn

type_synonym gstate = "world \<times> generator"

text \<open>One turn of \<open>while True\<close>, from \<open>data = proc.stdout.read(1024*1024)\<close>.\<close>

definition loop_turn :: "os_env \<Rightarrow> world \<Rightarrow> nat \<Rightarrow> step \<times> gstate" where
  "loop_turn env w pid =
     (case pump CHUNK (admits env) (script (w ! pid)) (stderr_fill (w ! pid)) [] of
        Blocked evs fill \<Rightarrow>
          (NoReturn, w[pid := (w ! pid)\<lparr>script := evs, stderr_fill := fill\<rparr>], Reading pid)
      | Failed evs fill \<Rightarrow>
          (Raise, terminate (w[pid := (w ! pid)\<lparr>script := evs, stderr_fill := fill\<rparr>]) pid, Done)
      | Data d evs fill \<Rightarrow>
          (let w' = w[pid := (w ! pid)\<lparr>script := evs, stderr_fill := fill\<rparr>] in
           if d = [] then (StopIteration, terminate w' pid, Done)
           else (Yield d, w', Suspended pid)))"

fun gen_next :: "os_env \<Rightarrow> gstate \<Rightarrow> step \<times> gstate" where
  "gen_next env (w, Created full_path) =
     (case Popen env w (command full_path) of
        None \<Rightarrow> (Raise, w, Done)
      | Some (w', pid) \<Rightarrow> loop_turn env w' pid)"
| "gen_next env (w, Suspended pid) = loop_turn env w pid"
| "gen_next env (w, Reading pid) = (NoReturn, w, Reading pid)"
| "gen_next env (w, Done) = (StopIteration, w, Done)"

text \<open>
  \<open>close()\<close> raises \<open>GeneratorExit\<close> at the \<open>yield\<close> and \<open>throw()\<close> raises the
  given exception there; both leave the \<open>try\<close> through \<open>finally\<close>. On a generator
  that has not started, neither runs any of the body.
\<close>

fun gen_exit :: "step \<Rightarrow> gstate \<Rightarrow> step \<times> gstate" where
  "gen_exit r (w, Created full_path) = (r, w, Done)"
| "gen_exit r (w, Suspended pid) = (r, terminate w pid, Done)"
| "gen_exit r (w, Reading pid) = (NoReturn, w, Reading pid)"
| "gen_exit r (w, Done) = (r, w, Done)"

datatype op = Next | Close | Throw

fun apply_op :: "os_env \<Rightarrow> op \<Rightarrow> gstate \<Rightarrow> step \<times> gstate" where
  "apply_op env Next s = gen_next env s"
| "apply_op env Close s = gen_exit Closed s"
| "apply_op env Throw s = gen_exit Raise s"

text \<open>What the server does with the generator, as a list of operations.\<close>

fun run :: "os_env \<Rightarrow> op list \<Rightarrow> gstate \<Rightarrow> step list \<times> gstate" where
  "run env [] s = ([], s)"
| "run env (x # xs) s =
     (case apply_op env x s of
        (r, s') \<Rightarrow> (case run env xs s' of (rs, s'') \<Rightarrow> (r # rs, s'')))"

text \<open>Serving an answer: only a generator body touches the process table.\<close>

fun serve :: "os_env \<Rightarrow> op list \<Rightarrow> world \<Rightarrow> action \<Rightarrow> world" where
  "serve env ops w (StreamBody g ct hs) = fst (snd (run env ops (w, g)))"
| "serve env ops w a = w"

definition stdout_of :: "enc_event list \<Rightarrow> bytes" where
  "stdout_of evs = concat (map (\<lambda>e. case e of Out bs \<Rightarrow> bs | _ \<Rightarrow> []) evs)"

definition stderr_total :: "enc_event list \<Rightarrow> nat" where
  "stderr_total evs = sum_list (map (\<lambda>e. case e of Err k \<Rightarrow> k | _ \<Rightarrow> 0) evs)"

function chunks :: "nat \<Rightarrow> 'a list \<Rightarrow> 'a list list" where
  "chunks n xs = (if n = 0 \<or> xs = [] then [] else take n xs # chunks n (drop n xs))"
  by pat_completeness auto
termination
  by (relation "measure (\<lambda>(n, xs). length xs)") auto

declare chunks.simps [simp del]

section \<open>Serving a file\<close>

datatype http_error = NotFound | Forbidden | RangeNotSatisfiable

record response =
  status :: nat
  mimetype :: string
  accept_ranges :: "string option"
  content_length :: nat
  content_range :: "(nat \<times> nat \<times> nat) option"
  body :: bytes

definition read_file :: "os_env \<Rightarrow> string \<Rightarrow> bytes option" where
  "read_file env path =
     (case nodes env (locate env path) of Some (File bs) \<Rightarrow> Some bs | _ \<Rightarrow> None)"

text \<open>
  Modelled from the spec: \<open>send_file\<close> is Flask's, and its text is not among the
  sources; the handlers only call it. The definition follows section 4.3
  (RangeFileServer): it advertises \<open>Accept-Ranges: bytes\<close>; without a range it returns
  the full file with 200; with \<open>Range: bytes=N-M\<close> it returns 206 with the requested
  span and \<open>Content-Range\<close>; it fails with \<open>NotFound\<close> if the file is gone and with
  \<open>RangeNotSatisfiable\<close> if the requested range is outside the file's length. The
  header arrives parsed, as the pair \<open>(N, M)\<close>; \<open>Content-Range: bytes N-M/L\<close> is the
  triple \<open>(N, M, L)\<close>. A span that is not wholly inside the file counts as outside.
\<close>

definition send_file ::
  "os_env \<Rightarrow> (nat \<times> nat) option \<Rightarrow> string \<Rightarrow> string \<Rightarrow> http_error + response" where
  "send_file env rng path mime =
     (case read_file env path of
        None \<Rightarrow> Inl NotFound
      | Some content \<Rightarrow>
          (case rng of
             None \<Rightarrow>
               Inr \<lparr>status = 200, mimetype = mime, accept_ranges = Some ''bytes'',
                    content_length = length content, content_range = None,
                    body = content\<rparr>
           | Some (N, M) \<Rightarrow>
               if N \<le> M \<and> M < length content then
                 Inr \<lparr>status = 206, mimetype = mime, accept_ranges = Some ''bytes'',
                      content_length = M - N + 1,
                      content_range = Some (N, M, length content),
                      body = take (M - N + 1) (drop N content)\<rparr>
               else Inl RangeNotSatisfiable))"

text \<open>
  Modelled from the spec: the answer Flask builds for a failure is not among the
  sources either. Section 7 maps \<open>NotFound\<close> to 404, \<open>Forbidden\<close> to 403 and
  \<open>RangeNotSatisfiable\<close> to 416, and section 8 gives the 416 answer no body.
\<close>

definition error_response :: "http_error \<Rightarrow> response" where
  "error_response e =
     \<lparr>status = (case e of NotFound \<Rightarrow> 404 | Forbidden \<Rightarrow> 403 | RangeNotSatisfiable \<Rightarrow> 416),
      mimetype = ''text/html'', accept_ranges = None, content_length = 0,
      content_range = None, body = []\<rparr>"

definition text_response :: "string \<Rightarrow> nat \<Rightarrow> response" where
  "text_response text st =
     \<lparr>status = st, mimetype = ''text/html'', accept_ranges = None,
      content_length = length text, content_range = None, body = text\<rparr>"

text \<open>
  The answer to a request whose handler returned a text or called \<open>send_file\<close>; the
  other answers have no body that is a byte string.
\<close>

fun deliver :: "os_env \<Rightarrow> (nat \<times> nat) option \<Rightarrow> action \<Rightarrow> response option" where
  "deliver env rng (Reply text st) = Some (text_response text st)"
| "deliver env rng (SendFile path mime) =
     (case send_file env rng path mime of
        Inl e \<Rightarrow> Some (error_response e)
      | Inr r \<Rightarrow> Some r)"
| "deliver env rng (SendFileOr500 path mime) =
     (case send_file env rng path mime of
        Inl e \<Rightarrow> Some (text_response [] 500)
      | Inr r \<Rightarrow> Some r)"
| "deliver env rng (StreamBody g ct hs) = None"
| "deliver env rng (ListDirectory path) = None"

text \<open>The three parts of a run: what the operations returned, and where they left things.\<close>

definition steps :: "os_env \<Rightarrow> op list \<Rightarrow> gstate \<Rightarrow> step list" where
  "steps env ops s = fst (run env ops s)"

definition final_world :: "os_env \<Rightarrow> op list \<Rightarrow> gstate \<Rightarrow> world" where
  "final_world env ops s = fst (snd (run env ops s))"

definition final_gen :: "os_env \<Rightarrow> op list \<Rightarrow> gstate \<Rightarrow> generator" where
  "final_gen env ops s = snd (snd (run env ops s))"

text \<open>
  What \<open>k\<close> calls of \<open>next\<close> return when the output splits into the chunks \<open>cs\<close>:
  the first \<open>k\<close> of them, then \<open>StopIteration\<close>.
\<close>

definition expected :: "bytes list \<Rightarrow> nat \<Rightarrow> step list" where
  "expected cs k = map Yield (take k cs) @ replicate (k - length cs) StopIteration"

text \<open>
  The same for any fate of the encoder. A run that completes yields every chunk; a
  run that fails or stalls after \<open>m\<close> bytes yields the full chunks among them. Then
  comes the ending: \<open>StopIteration\<close> for ever, the exception once, or calls that do
  not return.
\<close>

definition yield_count :: "fate \<Rightarrow> nat \<Rightarrow> bytes list \<Rightarrow> nat" where
  "yield_count f m cs = (case f of Completes \<Rightarrow> length cs | _ \<Rightarrow> m div CHUNK)"

fun ending :: "fate \<Rightarrow> nat \<Rightarrow> step list" where
  "ending Completes n = replicate n StopIteration"
| "ending Stalls n = replicate n NoReturn"
| "ending Fails 0 = []"
| "ending Fails (Suc n) = Raise # replicate n StopIteration"

definition foretold :: "bytes list \<Rightarrow> nat \<Rightarrow> fate \<Rightarrow> nat \<Rightarrow> step list" where
  "foretold cs m f k =
     map Yield (take (min k (yield_count f m cs)) cs) @ ending f (k - yield_count f m cs)"

text \<open>
  The process table \<open>w\<close> is \<open>w0\<close> with one more process, started by the generator
  for \<open>path\<close>; none of the bytes it wrote to its standard error has left the pipe.
\<close>

definition spawned :: "os_env \<Rightarrow> world \<Rightarrow> string \<Rightarrow> world \<Rightarrow> bool" where
  "spawned env w0 path w =
     (w \<noteq> [] \<and> w = w0 @ [last w] \<and> cmd (last w) = command path
      \<and> (case encoder env (command path) of
            None \<Rightarrow> False
          | Some evs \<Rightarrow>
              stderr_fill (last w) + stderr_total (script (last w)) = stderr_total evs))"

text \<open>The states a generator for \<open>path\<close>, created over the process table \<open>w0\<close>, can be in.\<close>

fun tracks :: "os_env \<Rightarrow> world \<Rightarrow> string \<Rightarrow> gstate \<Rightarrow> bool" where
  "tracks env w0 path (w, Created q) = (q = path \<and> w = w0)"
| "tracks env w0 path (w, Suspended pid) =
     (pid = length w0 \<and> spawned env w0 path w \<and> running (last w))"
| "tracks env w0 path (w, Reading pid) =
     (pid = length w0 \<and> spawned env w0 path w \<and> running (last w))"
| "tracks env w0 path (w, Done) =
     (w = w0 \<or> (spawned env w0 path w \<and> \<not> running (last w)))"

section \<open>A sample host\<close>

definition sample_nodes :: "location \<Rightarrow> node option" where
  "sample_nodes =
     [(''D:'', []) \<mapsto> Directory,
      (''D:'', [''TV'']) \<mapsto> Directory,
      (''D:'', [''TV'', ''index.jpg'']) \<mapsto> File ''JPG'',
      (''D:'', [''TV'', ''Show'']) \<mapsto> Directory,
      (''D:'', [''TV'', ''Show'', ''index.jpg'']) \<mapsto> File ''JPEG'',
      (''D:'', [''TV'', ''Show'', ''ep1.mp4'']) \<mapsto> File ''0123456789'',
      (''D:'', [''Windows'']) \<mapsto> Directory,
      (''D:'', [''Windows'', ''win.ini'']) \<mapsto> File ''secret'',
      (''C:'', [''boot.ini'']) \<mapsto> File ''boot'']"

definition sample_env :: os_env where
  "sample_env =
     \<lparr>nodes = sample_nodes,
      cwd = (''D:'', [''app'']),
      mime_types = (\<lambda>p. if endswith p ''.mp4'' then Some ''video/mp4'' else None),
      encoder = (\<lambda>c. Some [Err 3, Out ''abc'', Err 3, Out ''de'']),
      pipe_capacity = 8,
      pipe_accepts = (\<lambda>fill k. True)\<rparr>"

text \<open>The same host with a standard-error pipe of four bytes.\<close>

definition tight_env :: os_env where
  "tight_env = sample_env\<lparr>pipe_capacity := 4\<rparr>"

text \<open>
  The same host with a pipe of eight bytes that takes a write only while it holds
  at most two.
\<close>

definition paged_env :: os_env where
  "paged_env = sample_env\<lparr>pipe_accepts := (\<lambda>fill k. fill \<le> 2)\<rparr>"

text \<open>
  The same host with an encoder whose output is seven bytes longer than one chunk,
  written in two parts around a write to standard error.
\<close>

definition long_script :: "enc_event list" where
  "long_script = [Out (replicate (CHUNK - 2) (CHR ''x'')), Err 3, Out ''abcdefg'']"

definition long_env :: os_env where
  "long_env = sample_env\<lparr>encoder := (\<lambda>c. Some long_script)\<rparr>"


section \<open>Evaluating the definitions on given inputs\<close>

lemmas char_defs = sep_def altsep_def colon_def seps_def

lemmas path_defs =
  os_path_join_def splitdrive_def BASE_DIR_def str_lower_def lower_char_def
  str_upper_def upper_char_def norm_drive_def locate_def walk_def walk_step_def
  os_path_exists_def os_path_isfile_def guess_type_def endswith_def

lemmas sample_defs = sample_env_def sample_nodes_def

section \<open>The thumbnail route\<close>

text \<open>
  C10. For every request path of \<open>/thumb/<path>\<close>, the handler answers 404 unless the
  path ends with \<open>/index.jpg\<close>; the path \<open>index.jpg\<close>, with no slash before it, gets
  404 on every host, also one where \<open>BASE_DIR/index.jpg\<close> exists.
\<close>

theorem thumb_404_unless_slash_index_jpg:
  "(\<not> endswith thumbpath ''/index.jpg'' \<longrightarrow> thumb env thumbpath = Reply [] 404)
   \<and> thumb env ''index.jpg'' = Reply [] 404"
proof
  show "\<not> endswith thumbpath ''/index.jpg'' \<longrightarrow> thumb env thumbpath = Reply [] 404"
    by (simp add: thumb_def)
next
  have "\<not> endswith ''index.jpg'' ''/index.jpg''"
    by (simp add: endswith_def)
  then show "thumb env ''index.jpg'' = Reply [] 404"
    by (simp add: thumb_def)
qed

theorem thumb_404_unless_slash_index_jpg_witness:
  "\<not> endswith ''Show/poster.jpg'' ''/index.jpg''
   \<and> thumb sample_env ''Show/poster.jpg'' = Reply [] 404
   \<and> os_path_exists sample_env (os_path_join BASE_DIR ''index.jpg'')
   \<and> thumb sample_env ''index.jpg'' = Reply [] 404"
proof -
  have a: "\<not> endswith ''Show/poster.jpg'' ''/index.jpg''"
    by (simp add: endswith_def)
  have b: "os_path_exists sample_env (os_path_join BASE_DIR ''index.jpg'')"
    by (simp add: path_defs char_defs sample_defs)
  from a b thumb_404_unless_slash_index_jpg [of "''Show/poster.jpg''" sample_env]
  show ?thesis by simp
qed

section \<open>Missing files\<close>

text \<open>
  C6. When the joined path does not exist or is not a regular file, \<open>video\<close> and
  \<open>stream\<close> both answer 404, and the answer of \<open>stream\<close> carries no generator:
  whatever the server does with it, the process table stays as it was.
\<close>

theorem missing_file_404_no_encoder:
  assumes "\<not> os_path_exists env (os_path_join BASE_DIR p)
           \<or> \<not> os_path_isfile env (os_path_join BASE_DIR p)"
  shows "video env p = Reply ''File not found'' 404
         \<and> stream env p = Reply ''File not found'' 404
         \<and> serve env ops w (stream env p) = w"
proof -
  from assms have v: "video env p = Reply ''File not found'' 404"
    by (auto simp: video_def)
  from assms have s: "stream env p = Reply ''File not found'' 404"
    by (auto simp: stream_def)
  from v s show ?thesis by simp
qed

theorem missing_file_404_no_encoder_witness:
  "\<not> os_path_exists sample_env (os_path_join BASE_DIR ''Show/ep9.mp4'')
   \<and> video sample_env ''Show/ep9.mp4'' = Reply ''File not found'' 404
   \<and> stream sample_env ''Show/ep9.mp4'' = Reply ''File not found'' 404
   \<and> serve sample_env [Next, Next, Close] [] (stream sample_env ''Show/ep9.mp4'') = []"
proof -
  have h: "\<not> os_path_exists sample_env (os_path_join BASE_DIR ''Show/ep9.mp4'')"
    by (simp add: path_defs char_defs sample_defs)
  then have "\<not> os_path_exists sample_env (os_path_join BASE_DIR ''Show/ep9.mp4'')
             \<or> \<not> os_path_isfile sample_env (os_path_join BASE_DIR ''Show/ep9.mp4'')"
    by simp
  from h missing_file_404_no_encoder [OF this, of "[Next, Next, Close]" "[]"]
  show ?thesis by simp
qed

section \<open>Direct serving through \<open>/video\<close>\<close>

lemma video_existing_file:
  assumes "nodes env (locate env (os_path_join BASE_DIR p)) = Some (File content)"
  shows "video env p =
           SendFile (os_path_join BASE_DIR p)
             (case guess_type env (os_path_join BASE_DIR p) of
                Some m \<Rightarrow> m | None \<Rightarrow> ''video/mp4'')"
  using assms by (simp add: video_def os_path_exists_def os_path_isfile_def Let_def)

lemma read_existing_file:
  assumes "nodes env (locate env path) = Some (File content)"
  shows "read_file env path = Some content"
  using assms by (simp add: read_file_def)

text \<open>
  C3. For a regular file that the joined path names, \<open>GET /video/<path>\<close> with
  \<open>Range: bytes=N-M\<close>, \<open>N \<le> M\<close> and both inside the file, is answered 206 with the
  \<open>M - N + 1\<close> bytes from offset \<open>N\<close> and \<open>Content-Range: bytes N-M/L\<close>.
\<close>

theorem video_range_206:
  assumes "nodes env (locate env (os_path_join BASE_DIR p)) = Some (File content)"
    and "N \<le> M" and "M < length content"
  shows "deliver env (Some (N, M)) (video env p) =
           Some \<lparr>status = 206,
                 mimetype = (case guess_type env (os_path_join BASE_DIR p) of
                               Some m \<Rightarrow> m | None \<Rightarrow> ''video/mp4''),
                 accept_ranges = Some ''bytes'',
                 content_length = M - N + 1,
                 content_range = Some (N, M, length content),
                 body = take (M - N + 1) (drop N content)\<rparr>
         \<and> length (take (M - N + 1) (drop N content)) = M - N + 1"
proof -
  from assms(2,3) have len: "length (take (M - N + 1) (drop N content)) = M - N + 1"
    by simp
  from assms(2,3) have "send_file env (Some (N, M)) (os_path_join BASE_DIR p) mime =
        Inr \<lparr>status = 206, mimetype = mime, accept_ranges = Some ''bytes'',
             content_length = M - N + 1, content_range = Some (N, M, length content),
             body = take (M - N + 1) (drop N content)\<rparr>" for mime
    by (simp add: send_file_def read_existing_file [OF assms(1)])
  with len show ?thesis
    by (simp add: video_existing_file [OF assms(1)])
qed

theorem video_range_206_witness:
  "nodes sample_env (locate sample_env (os_path_join BASE_DIR ''Show/ep1.mp4''))
     = Some (File ''0123456789'')
   \<and> (2::nat) \<le> 5 \<and> 5 < length ''0123456789''
   \<and> deliver sample_env (Some (2, 5)) (video sample_env ''Show/ep1.mp4'') =
        Some \<lparr>status = 206, mimetype = ''video/mp4'', accept_ranges = Some ''bytes'',
              content_length = 4, content_range = Some (2, 5, 10), body = ''2345''\<rparr>"
proof -
  have f: "nodes sample_env (locate sample_env (os_path_join BASE_DIR ''Show/ep1.mp4''))
             = Some (File ''0123456789'')"
    by (simp add: path_defs char_defs sample_defs)
  have g: "guess_type sample_env (os_path_join BASE_DIR ''Show/ep1.mp4'') = Some ''video/mp4''"
    by (simp add: path_defs char_defs sample_defs)
  have n: "(2::nat) \<le> 5" and m: "5 < length ''0123456789''"
    by simp_all
  from f n m g video_range_206 [OF f n m] show ?thesis
    by simp
qed

text \<open>
  C4. For a regular file that the joined path names, a range that starts at or after
  the end of the file is answered 416 with an empty body.
\<close>

theorem video_range_416:
  assumes "nodes env (locate env (os_path_join BASE_DIR p)) = Some (File content)"
    and "length content \<le> N"
  shows "deliver env (Some (N, M)) (video env p) = Some (error_response RangeNotSatisfiable)
         \<and> status (error_response RangeNotSatisfiable) = 416
         \<and> body (error_response RangeNotSatisfiable) = []"
proof -
  from assms(2) have "send_file env (Some (N, M)) (os_path_join BASE_DIR p) mime
                      = Inl RangeNotSatisfiable" for mime
    by (simp add: send_file_def read_existing_file [OF assms(1)])
  then show ?thesis
    by (simp add: video_existing_file [OF assms(1)] error_response_def)
qed

theorem video_range_416_witness:
  "nodes sample_env (locate sample_env (os_path_join BASE_DIR ''Show/ep1.mp4''))
     = Some (File ''0123456789'')
   \<and> length ''0123456789'' \<le> (10::nat)
   \<and> map_option status (deliver sample_env (Some (10, 19)) (video sample_env ''Show/ep1.mp4''))
       = Some 416
   \<and> map_option body (deliver sample_env (Some (10, 19)) (video sample_env ''Show/ep1.mp4''))
       = Some []"
proof -
  have f: "nodes sample_env (locate sample_env (os_path_join BASE_DIR ''Show/ep1.mp4''))
             = Some (File ''0123456789'')"
    by (simp add: path_defs char_defs sample_defs)
  have n: "length ''0123456789'' \<le> (10::nat)"
    by simp
  from f n video_range_416 [OF f n, of 19] show ?thesis
    by simp
qed

text \<open>
  C5. For a regular file that the joined path names, \<open>GET /video/<path>\<close> without a
  \<open>Range\<close> header is answered 200 with the whole content of the file as the body and
  its length as \<open>Content-Length\<close>.
\<close>

theorem video_full_200:
  assumes "nodes env (locate env (os_path_join BASE_DIR p)) = Some (File content)"
  shows "deliver env None (video env p) =
           Some \<lparr>status = 200,
                 mimetype = (case guess_type env (os_path_join BASE_DIR p) of
                               Some m \<Rightarrow> m | None \<Rightarrow> ''video/mp4''),
                 accept_ranges = Some ''bytes'',
                 content_length = length content,
                 content_range = None,
                 body = content\<rparr>"
  by (simp add: video_existing_file [OF assms] send_file_def read_existing_file [OF assms])

theorem video_full_200_witness:
  "nodes sample_env (locate sample_env (os_path_join BASE_DIR ''Show/ep1.mp4''))
     = Some (File ''0123456789'')
   \<and> deliver sample_env None (video sample_env ''Show/ep1.mp4'') =
        Some \<lparr>status = 200, mimetype = ''video/mp4'', accept_ranges = Some ''bytes'',
              content_length = 10, content_range = None, body = ''0123456789''\<rparr>"
proof -
  have f: "nodes sample_env (locate sample_env (os_path_join BASE_DIR ''Show/ep1.mp4''))
             = Some (File ''0123456789'')"
    by (simp add: path_defs char_defs sample_defs)
  have g: "guess_type sample_env (os_path_join BASE_DIR ''Show/ep1.mp4'') = Some ''video/mp4''"
    by (simp add: path_defs char_defs sample_defs)
  from f g video_full_200 [OF f] show ?thesis
    by simp
qed

section \<open>Where the joined path leads\<close>

lemma splitdrive_BASE_DIR: "splitdrive BASE_DIR = (''D:'', sep # ''TV'')"
  by (simp add: splitdrive_def BASE_DIR_def char_defs)

lemma join_plain:
  assumes "splitdrive p = ([], p)" and "p = [] \<or> hd p \<notin> set seps"
  shows "os_path_join BASE_DIR p = BASE_DIR @ [sep] @ p"
proof -
  from assms have "os_path_join BASE_DIR p = ''D:'' @ (sep # ''TV'') @ [sep] @ p"
    by (auto simp: os_path_join_def splitdrive_BASE_DIR char_defs)
  then show ?thesis
    by (simp add: BASE_DIR_def)
qed

lemma splitdrive_under_base:
  "splitdrive (BASE_DIR @ [sep] @ p) = (''D:'', sep # ''TV'' @ sep # p)"
  by (simp add: splitdrive_def BASE_DIR_def char_defs)

lemma split_seps_under_base:
  "split_seps (sep # ''TV'' @ sep # p) = [] # ''TV'' # split_seps p"
  by (simp add: char_defs)

lemma walk_no_dotdot:
  "''..'' \<notin> set comps \<Longrightarrow>
   foldl walk_step base comps = base @ filter (\<lambda>c. c \<noteq> [] \<and> c \<noteq> ''.'') comps"
  by (induction comps arbitrary: base) (auto simp: walk_step_def)

lemma locate_plain:
  assumes "splitdrive p = ([], p)" and "p = [] \<or> hd p \<notin> set seps"
    and "''..'' \<notin> set (split_seps p)"
  shows "locate env (os_path_join BASE_DIR p) =
           (''D:'', ''TV'' # filter (\<lambda>c. c \<noteq> [] \<and> c \<noteq> ''.'') (split_seps p))"
proof -
  have w: "walk [] ([] # ''TV'' # split_seps p)
        = ''TV'' # filter (\<lambda>c. c \<noteq> [] \<and> c \<noteq> ''.'') (split_seps p)"
    using walk_no_dotdot [OF assms(3), of "[''TV'']"]
    by (simp add: walk_def walk_step_def)
  have nd: "norm_drive ''D:'' = ''D:''"
    by (simp add: norm_drive_def str_upper_def upper_char_def altsep_def)
  have "locate env (os_path_join BASE_DIR p) = locate env (BASE_DIR @ [sep] @ p)"
    by (simp only: join_plain [OF assms(1,2)])
  also have "\<dots> = (norm_drive ''D:'', walk [] (split_seps (sep # ''TV'' @ sep # p)))"
    unfolding locate_def splitdrive_under_base by (simp add: seps_def)
  also have "\<dots> = (''D:'', walk [] ([] # ''TV'' # split_seps p))"
    by (simp only: nd split_seps_under_base)
  also have "\<dots> = (''D:'', ''TV'' # filter (\<lambda>c. c \<noteq> [] \<and> c \<noteq> ''.'') (split_seps p))"
    by (simp only: w)
  finally show ?thesis .
qed

lemma inside_root_plain:
  assumes "splitdrive p = ([], p)" and "p = [] \<or> hd p \<notin> set seps"
    and "''..'' \<notin> set (split_seps p)"
  shows "inside_root (locate env (os_path_join BASE_DIR p))"
  by (simp add: locate_plain [OF assms] inside_root_def root_location_def)

text \<open>
  C1 as the code has it. Each of \<open>/video\<close>, \<open>/stream\<close> and \<open>/browse\<close> tests
  \<open>os.path.join(BASE_DIR, p)\<close> and nothing else: when that path exists (for
  \<open>/video\<close> and \<open>/stream\<close>: and is a regular file) the answer reads exactly that
  path, otherwise the answer is 404; no answer is 403. When \<open>p\<close> has no drive or UNC
  prefix, does not start with a separator and has no \<open>..\<close> component, that path
  names a location at or below the library root.
\<close>

theorem plain_paths_stay_inside_root:
  "(os_path_exists env (os_path_join BASE_DIR p) \<and> os_path_isfile env (os_path_join BASE_DIR p)
      \<longrightarrow> served_path (video env p) = Some (os_path_join BASE_DIR p)
          \<and> served_path (stream env p) = Some (os_path_join BASE_DIR p))
   \<and> (\<not> (os_path_exists env (os_path_join BASE_DIR p)
           \<and> os_path_isfile env (os_path_join BASE_DIR p))
      \<longrightarrow> video env p = Reply ''File not found'' 404
          \<and> stream env p = Reply ''File not found'' 404)
   \<and> (os_path_exists env (os_path_join BASE_DIR p)
      \<longrightarrow> served_path (browse env p) = Some (os_path_join BASE_DIR p))
   \<and> (\<not> os_path_exists env (os_path_join BASE_DIR p)
      \<longrightarrow> browse env p = Reply ''Path not found'' 404)
   \<and> video env p \<noteq> Reply msg 403 \<and> stream env p \<noteq> Reply msg 403
   \<and> browse env p \<noteq> Reply msg 403
   \<and> (splitdrive p = ([], p) \<and> (p = [] \<or> hd p \<notin> set seps)
       \<and> ''..'' \<notin> set (split_seps p)
      \<longrightarrow> inside_root (locate env (os_path_join BASE_DIR p)))"
proof -
  let ?J = "os_path_join BASE_DIR p"
  have 1: "os_path_exists env ?J \<and> os_path_isfile env ?J
      \<longrightarrow> served_path (video env p) = Some ?J \<and> served_path (stream env p) = Some ?J"
    by (simp add: video_def stream_def Let_def)
  have 2: "\<not> (os_path_exists env ?J \<and> os_path_isfile env ?J)
      \<longrightarrow> video env p = Reply ''File not found'' 404
          \<and> stream env p = Reply ''File not found'' 404"
    by (auto simp: video_def stream_def Let_def)
  have 3: "os_path_exists env ?J \<longrightarrow> served_path (browse env p) = Some ?J"
    by (simp add: browse_def Let_def)
  have 4: "\<not> os_path_exists env ?J \<longrightarrow> browse env p = Reply ''Path not found'' 404"
    by (simp add: browse_def Let_def)
  have 5: "video env p \<noteq> Reply msg 403" "stream env p \<noteq> Reply msg 403"
    "browse env p \<noteq> Reply msg 403"
    by (simp_all add: video_def stream_def browse_def Let_def)
  have 6: "splitdrive p = ([], p) \<and> (p = [] \<or> hd p \<notin> set seps)
       \<and> ''..'' \<notin> set (split_seps p) \<longrightarrow> inside_root (locate env ?J)"
    using inside_root_plain [of p env] by blast
  from 1 2 3 4 5 6 show ?thesis by blast
qed

theorem plain_paths_stay_inside_root_witness:
  "os_path_exists sample_env (os_path_join BASE_DIR ''Show/ep1.mp4'')
   \<and> os_path_isfile sample_env (os_path_join BASE_DIR ''Show/ep1.mp4'')
   \<and> splitdrive ''Show/ep1.mp4'' = ([], ''Show/ep1.mp4'')
   \<and> hd ''Show/ep1.mp4'' \<notin> set seps
   \<and> ''..'' \<notin> set (split_seps ''Show/ep1.mp4'')
   \<and> served_path (video sample_env ''Show/ep1.mp4'')
       = Some (os_path_join BASE_DIR ''Show/ep1.mp4'')
   \<and> served_path (stream sample_env ''Show/ep1.mp4'')
       = Some (os_path_join BASE_DIR ''Show/ep1.mp4'')
   \<and> served_path (browse sample_env ''Show/ep1.mp4'')
       = Some (os_path_join BASE_DIR ''Show/ep1.mp4'')
   \<and> inside_root (locate sample_env (os_path_join BASE_DIR ''Show/ep1.mp4''))
   \<and> \<not> os_path_exists sample_env (os_path_join BASE_DIR ''Show/ep9.mp4'')
   \<and> video sample_env ''Show/ep9.mp4'' = Reply ''File not found'' 404
   \<and> stream sample_env ''Show/ep9.mp4'' = Reply ''File not found'' 404
   \<and> browse sample_env ''Show/ep9.mp4'' = Reply ''Path not found'' 404"
proof -
  have a: "os_path_exists sample_env (os_path_join BASE_DIR ''Show/ep1.mp4'')"
    by (simp add: path_defs char_defs sample_defs)
  have b: "os_path_isfile sample_env (os_path_join BASE_DIR ''Show/ep1.mp4'')"
    by (simp add: path_defs char_defs sample_defs)
  have c: "splitdrive ''Show/ep1.mp4'' = ([], ''Show/ep1.mp4'')"
    by (simp add: splitdrive_def char_defs)
  have d: "hd ''Show/ep1.mp4'' \<notin> set seps"
    by (simp add: char_defs)
  have e: "''..'' \<notin> set (split_seps ''Show/ep1.mp4'')"
    by (simp add: char_defs)
  have f: "\<not> os_path_exists sample_env (os_path_join BASE_DIR ''Show/ep9.mp4'')"
    by (simp add: path_defs char_defs sample_defs)
  from a b c d e plain_paths_stay_inside_root [of sample_env "''Show/ep1.mp4''"]
  have g: "served_path (video sample_env ''Show/ep1.mp4'')
             = Some (os_path_join BASE_DIR ''Show/ep1.mp4'')
           \<and> served_path (stream sample_env ''Show/ep1.mp4'')
             = Some (os_path_join BASE_DIR ''Show/ep1.mp4'')
           \<and> served_path (browse sample_env ''Show/ep1.mp4'')
             = Some (os_path_join BASE_DIR ''Show/ep1.mp4'')
           \<and> inside_root (locate sample_env (os_path_join BASE_DIR ''Show/ep1.mp4''))"
    by blast
  from f plain_paths_stay_inside_root [of sample_env "''Show/ep9.mp4''"]
  have h: "video sample_env ''Show/ep9.mp4'' = Reply ''File not found'' 404
           \<and> stream sample_env ''Show/ep9.mp4'' = Reply ''File not found'' 404
           \<and> browse sample_env ''Show/ep9.mp4'' = Reply ''Path not found'' 404"
    by blast
  from a b c d e f g h show ?thesis by blast
qed

text \<open>
  C1 as the spec states it fails: a request path with \<open>..\<close> components, or with a
  drive of its own, makes the handlers serve a file outside the library root.
\<close>

theorem dotdot_leaves_root:
  "video sample_env ''Show/../../Windows/win.ini''
     = SendFile (os_path_join BASE_DIR ''Show/../../Windows/win.ini'') ''video/mp4''
   \<and> locate sample_env (os_path_join BASE_DIR ''Show/../../Windows/win.ini'')
       = (''D:'', [''Windows'', ''win.ini''])
   \<and> \<not> inside_root (''D:'', [''Windows'', ''win.ini''])
   \<and> \<not> confined sample_env (video sample_env ''Show/../../Windows/win.ini'')
   \<and> \<not> confined sample_env (stream sample_env ''Show/../../Windows/win.ini'')
   \<and> \<not> confined sample_env (browse sample_env ''Show/../../Windows/win.ini'')
   \<and> \<not> confined sample_env (video sample_env ''C:/boot.ini'')"
proof -
  have l: "locate sample_env (os_path_join BASE_DIR ''Show/../../Windows/win.ini'')
             = (''D:'', [''Windows'', ''win.ini''])"
    by (simp add: path_defs char_defs sample_defs)
  have o: "\<not> inside_root (''D:'', [''Windows'', ''win.ini''])"
    by (simp add: inside_root_def root_location_def)
  have v: "video sample_env ''Show/../../Windows/win.ini''
             = SendFile (os_path_join BASE_DIR ''Show/../../Windows/win.ini'') ''video/mp4''"
    by (simp add: video_def path_defs char_defs sample_defs Let_def)
  have s: "stream sample_env ''Show/../../Windows/win.ini''
             = StreamBody (Created (os_path_join BASE_DIR ''Show/../../Windows/win.ini''))
                 ''video/mp4'' [(''Accept-Ranges'', ''bytes'')]"
    by (simp add: stream_def path_defs char_defs sample_defs Let_def)
  have b: "browse sample_env ''Show/../../Windows/win.ini''
             = SendFile (os_path_join BASE_DIR ''Show/../../Windows/win.ini'') ''video/mp4''"
    by (simp add: browse_def path_defs char_defs sample_defs Let_def)
  have c: "\<not> confined sample_env (video sample_env ''C:/boot.ini'')"
    by (simp add: confined_def video_def inside_root_def root_location_def path_defs
        char_defs sample_defs Let_def)
  from l o v s b c show ?thesis
    by (simp add: confined_def)
qed

section \<open>Reading from the encoder\<close>

lemma stderr_total_simps [simp]:
  "stderr_total [] = 0"
  "stderr_total (Out bs # evs) = stderr_total evs"
  "stderr_total (Err k # evs) = k + stderr_total evs"
  "stderr_total (ReadError # evs) = stderr_total evs"
  by (simp_all add: stderr_total_def)

lemma stdout_of_simps [simp]:
  "stdout_of [] = []"
  "stdout_of (Out bs # evs) = bs @ stdout_of evs"
  "stdout_of (Err k # evs) = stdout_of evs"
  "stdout_of (ReadError # evs) = stdout_of evs"
  by (simp_all add: stdout_of_def)

lemma pump_data_stderr:
  "pump n cap evs fill acc = Data d evs' fill' \<Longrightarrow>
   fill' + stderr_total evs' = fill + stderr_total evs"
  by (induction n cap evs fill acc rule: pump.induct) (auto split: if_splits)

lemma pump_failed_stderr:
  "pump n cap evs fill acc = Failed evs' fill' \<Longrightarrow>
   fill' + stderr_total evs' = fill + stderr_total evs"
  by (induction n cap evs fill acc rule: pump.induct) (auto split: if_splits)

lemma pump_blocked_stderr:
  "pump n cap evs fill acc = Blocked evs' fill' \<Longrightarrow>
   fill' + stderr_total evs' = fill + stderr_total evs"
  by (induction n cap evs fill acc rule: pump.induct) (auto split: if_splits)

lemma spawned_append:
  "spawned env w0 path w \<Longrightarrow> w = w0 @ [last w]"
  by (simp add: spawned_def)

lemma spawned_last:
  "spawned env w0 path (w0 @ [p]) =
     (cmd p = command path
      \<and> (case encoder env (command path) of
            None \<Rightarrow> False
          | Some evs \<Rightarrow> stderr_fill p + stderr_total (script p) = stderr_total evs))"
  by (auto simp: spawned_def split: option.splits)

lemma loop_turn_tracks:
  assumes sp: "spawned env w0 path (w0 @ [p])" and run: "running p"
    and turn: "loop_turn env (w0 @ [p]) (length w0) = (r, s')"
  shows "tracks env w0 path s'"
proof (cases "pump CHUNK (admits env) (script p) (stderr_fill p) []")
  case (Blocked evs fill)
  from sp pump_blocked_stderr [OF Blocked]
  have "spawned env w0 path (w0 @ [p\<lparr>script := evs, stderr_fill := fill\<rparr>])"
    by (auto simp: spawned_last split: option.splits)
  with turn Blocked run show ?thesis
    by (auto simp: loop_turn_def)
next
  case (Failed evs fill)
  from sp pump_failed_stderr [OF Failed]
  have "spawned env w0 path (w0 @ [p\<lparr>script := evs, stderr_fill := fill, running := False\<rparr>])"
    by (auto simp: spawned_last split: option.splits)
  with turn Failed show ?thesis
    by (auto simp: loop_turn_def terminate_def)
next
  case (Data d evs fill)
  from sp pump_data_stderr [OF Data]
  have a: "spawned env w0 path (w0 @ [p\<lparr>script := evs, stderr_fill := fill\<rparr>])"
    and b: "spawned env w0 path (w0 @ [p\<lparr>script := evs, stderr_fill := fill, running := False\<rparr>])"
    by (auto simp: spawned_last split: option.splits)
  from a b turn Data run show ?thesis
    by (auto simp: loop_turn_def terminate_def Let_def split: if_splits)
qed

lemma Popen_spawned:
  assumes "Popen env w0 (command path) = Some a"
  shows "\<exists>p. a = (w0 @ [p], length w0) \<and> spawned env w0 path (w0 @ [p]) \<and> running p"
  using assms by (auto simp: Popen_def spawned_last split: option.splits)

lemma gen_next_tracks:
  assumes "tracks env w0 path (w, g)" and "gen_next env (w, g) = (r, s')"
  shows "tracks env w0 path s'"
proof (cases g)
  case (Created q)
  show ?thesis
  proof (cases "Popen env w0 (command path)")
    case None
    with Created assms show ?thesis by auto
  next
    case (Some a)
    from Popen_spawned [OF Some]
    obtain p where "a = (w0 @ [p], length w0)" "spawned env w0 path (w0 @ [p])" "running p"
      by blast
    with Some Created assms show ?thesis
      by (auto intro: loop_turn_tracks)
  qed
next
  case (Suspended pid)
  with assms have sp: "spawned env w0 path w" and rn: "running (last w)" and pid: "pid = length w0"
    by auto
  from sp have w: "w = w0 @ [last w]" by (rule spawned_append)
  from sp w have sp': "spawned env w0 path (w0 @ [last w])" by simp
  from assms Suspended pid w have "loop_turn env (w0 @ [last w]) (length w0) = (r, s')"
    by simp
  from loop_turn_tracks [OF sp' rn this] show ?thesis .
next
  case (Reading pid)
  with assms show ?thesis by auto
next
  case Done
  with assms show ?thesis by auto
qed

lemma gen_exit_tracks:
  assumes "tracks env w0 path (w, g)" and "gen_exit e (w, g) = (r, s')"
  shows "tracks env w0 path s'"
proof (cases g)
  case (Suspended pid)
  with assms have sp: "spawned env w0 path w" and pid: "pid = length w0"
    by auto
  from sp have w: "w = w0 @ [last w]" by (rule spawned_append)
  from sp w have "spawned env w0 path (w0 @ [last w])" by simp
  then have "spawned env w0 path (w0 @ [(last w)\<lparr>running := False\<rparr>])"
    by (auto simp: spawned_last split: option.splits)
  moreover have "terminate w pid = w0 @ [(last w)\<lparr>running := False\<rparr>]"
    by (subst w) (simp add: terminate_def pid)
  ultimately show ?thesis
    using assms Suspended by auto
qed (use assms in auto)

lemma apply_op_tracks:
  assumes "tracks env w0 path s" and "apply_op env x s = (r, s')"
  shows "tracks env w0 path s'"
  using assms
  by (cases s; cases x) (auto intro: gen_next_tracks gen_exit_tracks)

lemma run_tracks:
  "tracks env w0 path s \<Longrightarrow> run env ops s = (rs, s') \<Longrightarrow> tracks env w0 path s'"
proof (induction ops arbitrary: s rs)
  case Nil
  then show ?case by simp
next
  case (Cons x xs)
  then show ?case
    by (auto split: prod.splits dest: apply_op_tracks)
qed

lemma run_append:
  "run env (xs @ ys) s =
     (case run env xs s of
        (rs, s') \<Rightarrow> (case run env ys s' of (rs', s'') \<Rightarrow> (rs @ rs', s'')))"
  by (induction xs arbitrary: s) (auto split: prod.splits)

section \<open>The states of the generator\<close>

lemma tracks_initial: "tracks env w0 path (w0, Created path)"
  by simp

lemma tracks_prefix:
  assumes "tracks env w0 path (w, g)"
  shows "take (length w0) w = w0" and "length w \<le> Suc (length w0)"
proof -
  have "take (length w0) w = w0 \<and> length w \<le> Suc (length w0)"
  proof (cases "w = w0")
    case True
    then show ?thesis by simp
  next
    case False
    with assms have "spawned env w0 path w" by (cases g) auto
    then have "w = w0 @ [last w]" by (rule spawned_append)
    then have "take (length w0) w = take (length w0) (w0 @ [last w])"
      and "length w = length (w0 @ [last w])" by simp_all
    then show ?thesis by simp
  qed
  then show "take (length w0) w = w0" and "length w \<le> Suc (length w0)" by simp_all
qed


lemma close_ends:
  assumes "tracks env w0 path (w, g)" and "gen_exit e (w, g) = (r, w', g')"
  shows "g' = Done \<or> g' = Reading (length w0)"
  using assms by (cases g) auto

lemmas run_defs =
  steps_def final_world_def final_gen_def loop_turn_def Popen_def terminate_def CHUNK_def
  admits_def

section \<open>One encoder per response\<close>

lemma loop_turn_length:
  "loop_turn env w pid = (r, w', g') \<Longrightarrow> length w' = length w"
  by (auto simp: loop_turn_def terminate_def Let_def split: read_result.splits if_splits)

lemma apply_op_length:
  assumes "apply_op env x (w, g) = (r, w', g')"
  shows "length w \<le> length w'"
proof (cases x)
  case Next
  with assms show ?thesis
    by (cases g)
      (auto simp: Popen_def split: option.splits dest!: loop_turn_length)
next
  case Close
  with assms show ?thesis by (cases g) (auto simp: terminate_def)
next
  case Throw
  with assms show ?thesis by (cases g) (auto simp: terminate_def)
qed

lemma run_length:
  "run env ops (w, g) = (rs, w', g') \<Longrightarrow> length w \<le> length w'"
proof (induction ops arbitrary: w g rs)
  case Nil
  then show ?case by simp
next
  case (Cons x xs)
  obtain r w1 g1 where a: "apply_op env x (w, g) = (r, w1, g1)"
    by (cases "apply_op env x (w, g)") auto
  obtain rs1 where b: "run env xs (w1, g1) = (rs1, w', g')"
    using Cons.prems a by (auto split: prod.splits)
  from apply_op_length [OF a] Cons.IH [OF b] show ?case by simp
qed

lemma first_next_spawns:
  assumes "encoder env (command path) \<noteq> None"
    and "gen_next env (w0, Created path) = (r, w1, g1)"
  shows "length w1 = Suc (length w0)"
  using assms
  by (auto simp: Popen_def split: option.splits dest!: loop_turn_length)

lemma stream_existing_file:
  assumes "os_path_exists env (os_path_join BASE_DIR p)"
    and "os_path_isfile env (os_path_join BASE_DIR p)"
  shows "stream env p =
           StreamBody (Created (os_path_join BASE_DIR p)) ''video/mp4''
             [(''Accept-Ranges'', ''bytes'')]"
  using assms by (simp add: stream_def)

lemma tracks_grown:
  assumes "tracks env w0 path (w, g)" and "length w = Suc (length w0)"
  shows "w = w0 @ [last w] \<and> cmd (last w) = command path"
proof -
  from assms(2) have "w \<noteq> w0" by auto
  with assms(1) have "spawned env w0 path w" by (cases g) auto
  then show ?thesis by (simp add: spawned_def)
qed

text \<open>
  C8. For a regular file that the joined path names and an encoder binary that can be
  launched, a \<open>/stream\<close> response whose body the server starts to iterate adds exactly
  one process to the process table, whatever the server does afterwards; its command
  is the fixed list of \<open>generate()\<close>, in which only the source path depends on the
  request. No sequence of operations on the body starts more than one process.
\<close>

theorem stream_spawns_one_fixed_command:
  assumes "os_path_exists env (os_path_join BASE_DIR p)"
    and "os_path_isfile env (os_path_join BASE_DIR p)"
    and "encoder env (command (os_path_join BASE_DIR p)) \<noteq> None"
  shows "length (serve env (Next # ops) w0 (stream env p)) = Suc (length w0)
         \<and> take (length w0) (serve env (Next # ops) w0 (stream env p)) = w0
         \<and> cmd (last (serve env (Next # ops) w0 (stream env p))) =
             [FFMPEG, ''-i'', os_path_join BASE_DIR p, ''-c:v'', ''libx264'', ''-c:a'', ''aac'',
              ''-preset'', ''ultrafast'', ''-b:v'', ''500k'', ''-b:a'', ''96k'', ''-f'', ''mp4'',
              ''-movflags'', ''frag_keyframe'', ''-'']
         \<and> length (serve env ops' w0 (stream env p)) \<le> Suc (length w0)"
proof -
  let ?path = "os_path_join BASE_DIR p"
  note st = stream_existing_file [OF assms(1,2)]
  obtain rs w g where r: "run env (Next # ops) (w0, Created ?path) = (rs, w, g)"
    by (cases "run env (Next # ops) (w0, Created ?path)") auto
  obtain r1 w1 g1 where n: "gen_next env (w0, Created ?path) = (r1, w1, g1)"
    by (cases "gen_next env (w0, Created ?path)") auto
  obtain rs' where r': "run env ops (w1, g1) = (rs', w, g)"
    using r n by (auto split: prod.splits)
  from first_next_spawns [OF assms(3) n] run_length [OF r']
  have "Suc (length w0) \<le> length w" by simp
  moreover from run_tracks [OF tracks_initial r] have t: "tracks env w0 ?path (w, g)" .
  ultimately have len: "length w = Suc (length w0)"
    using tracks_prefix(2) [OF t] by simp
  from tracks_grown [OF t len] have c: "cmd (last w) = command ?path" by simp
  obtain rs2 w2 g2 where r2: "run env ops' (w0, Created ?path) = (rs2, w2, g2)"
    by (cases "run env ops' (w0, Created ?path)") auto
  from run_tracks [OF tracks_initial r2] have "length w2 \<le> Suc (length w0)"
    by (rule tracks_prefix(2))
  with len c tracks_prefix(1) [OF t] r r2 show ?thesis
    unfolding st by (simp add: command_def)
qed

theorem stream_spawns_one_fixed_command_witness:
  "os_path_exists sample_env (os_path_join BASE_DIR ''Show/ep1.mp4'')
   \<and> os_path_isfile sample_env (os_path_join BASE_DIR ''Show/ep1.mp4'')
   \<and> encoder sample_env (command (os_path_join BASE_DIR ''Show/ep1.mp4'')) \<noteq> None
   \<and> length (serve sample_env [Next, Next, Close] [] (stream sample_env ''Show/ep1.mp4'')) = 1
   \<and> cmd (last (serve sample_env [Next, Next, Close] [] (stream sample_env ''Show/ep1.mp4''))) =
       [FFMPEG, ''-i'', os_path_join BASE_DIR ''Show/ep1.mp4'', ''-c:v'', ''libx264'',
        ''-c:a'', ''aac'', ''-preset'', ''ultrafast'', ''-b:v'', ''500k'', ''-b:a'', ''96k'',
        ''-f'', ''mp4'', ''-movflags'', ''frag_keyframe'', ''-'']"
proof -
  have a: "os_path_exists sample_env (os_path_join BASE_DIR ''Show/ep1.mp4'')"
    by (simp add: path_defs char_defs sample_defs)
  have b: "os_path_isfile sample_env (os_path_join BASE_DIR ''Show/ep1.mp4'')"
    by (simp add: path_defs char_defs sample_defs)
  have c: "encoder sample_env (command (os_path_join BASE_DIR ''Show/ep1.mp4'')) \<noteq> None"
    by (simp add: sample_env_def)
  from a b c stream_spawns_one_fixed_command [OF a b c, of "[Next, Close]" "[]" "[]"]
  show ?thesis by simp
qed

section \<open>The generator leaves no encoder running\<close>











section \<open>What the calls of \<open>next\<close> return\<close>

lemma chunks_Nil: "chunks n [] = []"
  by (simp add: chunks.simps)

lemma chunks_step: "0 < n \<Longrightarrow> xs \<noteq> [] \<Longrightarrow> chunks n xs = take n xs # chunks n (drop n xs)"
  by (subst chunks.simps) simp

lemma CHUNK_pos: "0 < CHUNK"
  by (simp add: CHUNK_def)

lemma reach_le: "reach a fill evs \<le> length (stdout_of evs)"
  by (induction a fill evs rule: reach.induct) auto

lemma reach_completes:
  "fate_of a fill evs = Completes \<Longrightarrow> reach a fill evs = length (stdout_of evs)"
  by (induction a fill evs rule: reach.induct) (auto split: if_splits)

lemma pump_enough:
  assumes "length acc < n" and "n \<le> length acc + reach a fill evs"
  shows "\<exists>evs' fill'. pump n a evs fill acc = Data (take n (acc @ stdout_of evs)) evs' fill'
           \<and> stdout_of evs' = drop n (acc @ stdout_of evs)
           \<and> reach a fill' evs' = length acc + reach a fill evs - n
           \<and> fate_of a fill' evs' = fate_of a fill evs"
  using assms
proof (induction n a evs fill acc rule: pump.induct)
  case (1 n a fill acc)
  then show ?case by simp
next
  case (2 n a bs evs fill acc)
  then show ?case by (auto simp: add.assoc)
next
  case (3 n a k evs fill acc)
  then show ?case by (auto split: if_splits)
next
  case (4 n a evs fill acc)
  then show ?case by simp
qed

lemma pump_short:
  assumes "length acc + reach a fill evs < n"
  shows "(fate_of a fill evs = Completes \<longrightarrow>
            (\<exists>fill'. pump n a evs fill acc = Data (acc @ stdout_of evs) [] fill'))
         \<and> (fate_of a fill evs = Fails \<longrightarrow>
            (\<exists>evs' fill'. pump n a evs fill acc = Failed evs' fill'))
         \<and> (fate_of a fill evs = Stalls \<longrightarrow>
            (\<exists>evs' fill'. pump n a evs fill acc = Blocked evs' fill'))"
  using assms
proof (induction n a evs fill acc rule: pump.induct)
  case (1 n a fill acc)
  then show ?case by simp
next
  case (2 n a bs evs fill acc)
  then show ?case by auto
next
  case (3 n a k evs fill acc)
  then show ?case by auto
next
  case (4 n a evs fill acc)
  then show ?case by simp
qed

lemma run_done:
  "run env (replicate k Next) (w, Done) = (replicate k StopIteration, w, Done)"
  by (induction k) auto

lemma run_reading:
  "run env (replicate k Next) (w, Reading pid) = (replicate k NoReturn, w, Reading pid)"
  by (induction k) auto

lemma run_reading_any:
  "run env ops (w, Reading pid) = (replicate (length ops) NoReturn, w, Reading pid)"
proof (induction ops)
  case Nil
  then show ?case by simp
next
  case (Cons x xs)
  then show ?case by (cases x) auto
qed

lemma foretold_0: "foretold cs m f 0 = []"
  by (cases f) (simp_all add: foretold_def)

lemma foretold_yield:
  assumes "CHUNK \<le> m"
  shows "foretold (c # cs) m f (Suc k) = Yield c # foretold cs (m - CHUNK) f k"
proof -
  from assms have "m div CHUNK = Suc ((m - CHUNK) div CHUNK)"
    using CHUNK_pos by (simp add: le_div_geq)
  then have "yield_count f m (c # cs) = Suc (yield_count f (m - CHUNK) cs)"
    by (cases f) (simp_all add: yield_count_def)
  then show ?thesis by (simp add: foretold_def)
qed

lemma foretold_last:
  "foretold [c] m Completes (Suc k) = Yield c # foretold [] 0 Completes k"
  by (simp add: foretold_def yield_count_def)

lemma foretold_end:
  assumes "m < CHUNK" and "f \<noteq> Completes"
  shows "foretold cs m f k = ending f k"
  using assms by (cases f) (simp_all add: foretold_def yield_count_def)

lemma foretold_empty: "foretold [] m Completes k = replicate k StopIteration"
  by (simp add: foretold_def yield_count_def)

lemma foretold_completes: "foretold cs m Completes k = expected cs k"
proof -
  have "take (min k (length cs)) cs = take k cs"
    by (cases "k \<le> length cs") (simp_all add: min_def)
  then show ?thesis
    by (simp add: foretold_def yield_count_def expected_def)
qed

text \<open>One turn of the loop from a process in any state.\<close>

lemma turn_yields:
  assumes "CHUNK \<le> reach (admits env) (stderr_fill p) (script p)"
  shows "\<exists>p1. loop_turn env (w0 @ [p]) (length w0)
                = (Yield (take CHUNK (stdout_of (script p))), w0 @ [p1], Suspended (length w0))
              \<and> stdout_of (script p1) = drop CHUNK (stdout_of (script p))
              \<and> reach (admits env) (stderr_fill p1) (script p1)
                  = reach (admits env) (stderr_fill p) (script p) - CHUNK
              \<and> fate_of (admits env) (stderr_fill p1) (script p1)
                  = fate_of (admits env) (stderr_fill p) (script p)
              \<and> running p1 = running p"
proof -
  from pump_enough [of "[]" CHUNK "admits env" "stderr_fill p" "script p"] assms CHUNK_pos
  obtain evs' fill' where
    pm: "pump CHUNK (admits env) (script p) (stderr_fill p) []
           = Data (take CHUNK (stdout_of (script p))) evs' fill'"
    and rest: "stdout_of evs' = drop CHUNK (stdout_of (script p))"
      "reach (admits env) fill' evs' = reach (admits env) (stderr_fill p) (script p) - CHUNK"
      "fate_of (admits env) fill' evs' = fate_of (admits env) (stderr_fill p) (script p)"
    by auto
  from assms reach_le [of "admits env" "stderr_fill p" "script p"] CHUNK_pos
  have "take CHUNK (stdout_of (script p)) \<noteq> []" by auto
  with pm have "loop_turn env (w0 @ [p]) (length w0)
      = (Yield (take CHUNK (stdout_of (script p))),
         w0 @ [p\<lparr>script := evs', stderr_fill := fill'\<rparr>], Suspended (length w0))"
    by (simp add: loop_turn_def)
  with rest show ?thesis by auto
qed

lemma turn_ends:
  assumes "reach (admits env) (stderr_fill p) (script p) < CHUNK"
  shows "(fate_of (admits env) (stderr_fill p) (script p) = Completes
            \<and> stdout_of (script p) \<noteq> [] \<longrightarrow>
          (\<exists>p1. loop_turn env (w0 @ [p]) (length w0)
                  = (Yield (stdout_of (script p)), w0 @ [p1], Suspended (length w0))
                \<and> script p1 = [] \<and> running p1 = running p))
       \<and> (fate_of (admits env) (stderr_fill p) (script p) = Completes
            \<and> stdout_of (script p) = [] \<longrightarrow>
          (\<exists>p1. loop_turn env (w0 @ [p]) (length w0) = (StopIteration, w0 @ [p1], Done)
                \<and> script p1 = []))
       \<and> (fate_of (admits env) (stderr_fill p) (script p) = Fails \<longrightarrow>
          (\<exists>p1. loop_turn env (w0 @ [p]) (length w0) = (Raise, w0 @ [p1], Done)))
       \<and> (fate_of (admits env) (stderr_fill p) (script p) = Stalls \<longrightarrow>
          (\<exists>p1. loop_turn env (w0 @ [p]) (length w0)
                  = (NoReturn, w0 @ [p1], Reading (length w0))
                \<and> running p1 = running p))"
  using pump_short [of "[]" "admits env" "stderr_fill p" "script p" CHUNK] assms
  by (auto simp: loop_turn_def terminate_def)

lemma run_suspended:
  "\<exists>p' g'. run env (replicate k Next) (w0 @ [p], Suspended (length w0))
             = (foretold (chunks CHUNK (stdout_of (script p)))
                  (reach (admits env) (stderr_fill p) (script p))
                  (fate_of (admits env) (stderr_fill p) (script p)) k,
                w0 @ [p'], g')
           \<and> (fate_of (admits env) (stderr_fill p) (script p) = Stalls
               \<and> reach (admits env) (stderr_fill p) (script p) div CHUNK < k
              \<longrightarrow> g' = Reading (length w0) \<and> running p' = running p)
           \<and> (k \<le> reach (admits env) (stderr_fill p) (script p) div CHUNK
              \<longrightarrow> stdout_of (script p') = drop (k * CHUNK) (stdout_of (script p)))"
proof (induction k arbitrary: p)
  case 0
  then show ?case by (simp add: foretold_0)
next
  case (Suc k)
  let ?out = "stdout_of (script p)"
  let ?m = "reach (admits env) (stderr_fill p) (script p)"
  let ?f = "fate_of (admits env) (stderr_fill p) (script p)"
  show ?case
  proof (cases "CHUNK \<le> ?m")
    case True
    from turn_yields [OF True, of w0]
    obtain p1 where lt: "loop_turn env (w0 @ [p]) (length w0)
                = (Yield (take CHUNK ?out), w0 @ [p1], Suspended (length w0))"
      and o1: "stdout_of (script p1) = drop CHUNK ?out"
      and m1: "reach (admits env) (stderr_fill p1) (script p1) = ?m - CHUNK"
      and f1: "fate_of (admits env) (stderr_fill p1) (script p1) = ?f"
      and r1: "running p1 = running p"
      by blast
    from Suc.IH [of p1] o1 m1 f1 r1
    obtain p' g' where
      ih: "run env (replicate k Next) (w0 @ [p1], Suspended (length w0))
             = (foretold (chunks CHUNK (drop CHUNK ?out)) (?m - CHUNK) ?f k, w0 @ [p'], g')"
      and st: "?f = Stalls \<and> (?m - CHUNK) div CHUNK < k
              \<longrightarrow> g' = Reading (length w0) \<and> running p' = running p"
      and cn: "k \<le> (?m - CHUNK) div CHUNK
              \<longrightarrow> stdout_of (script p') = drop (k * CHUNK) (drop CHUNK ?out)"
      by auto
    from True reach_le [of "admits env" "stderr_fill p" "script p"] CHUNK_pos
    have ne: "?out \<noteq> []" by auto
    have ch: "chunks CHUNK ?out = take CHUNK ?out # chunks CHUNK (drop CHUNK ?out)"
      using CHUNK_pos ne by (rule chunks_step)
    have dv: "?m div CHUNK = Suc ((?m - CHUNK) div CHUNK)"
      using True CHUNK_pos by (simp add: le_div_geq)
    have "run env (replicate (Suc k) Next) (w0 @ [p], Suspended (length w0))
            = (foretold (chunks CHUNK ?out) ?m ?f (Suc k), w0 @ [p'], g')"
      using lt ih by (simp add: ch foretold_yield [OF True])
    moreover from cn dv have "Suc k \<le> ?m div CHUNK
              \<longrightarrow> stdout_of (script p') = drop (Suc k * CHUNK) ?out"
      by (simp add: add.commute)
    ultimately show ?thesis using st dv by auto
  next
    case False
    then have small: "?m < CHUNK" by simp
    note te = turn_ends [OF small, of w0]
    from small have z: "?m div CHUNK = 0" by simp
    show ?thesis
    proof (cases ?f)
      case Completes
      then have len: "length ?out = ?m" by (simp add: reach_completes)
      show ?thesis
      proof (cases "?out = []")
        case True
        with te Completes obtain p1 where
          "loop_turn env (w0 @ [p]) (length w0) = (StopIteration, w0 @ [p1], Done)"
          by auto
        with True Completes z show ?thesis
          by (simp add: run_done chunks_Nil foretold_empty)
      next
        case ne: False
        with te Completes obtain p1 where
          lt: "loop_turn env (w0 @ [p]) (length w0)
                 = (Yield ?out, w0 @ [p1], Suspended (length w0))"
          and s1: "script p1 = []"
          by auto
        from Suc.IH [of p1] s1 obtain p' g' where
          ih: "run env (replicate k Next) (w0 @ [p1], Suspended (length w0))
             = (foretold [] 0 Completes k, w0 @ [p'], g')"
          by (auto simp: chunks_Nil)
        from small len ne CHUNK_pos have ch: "chunks CHUNK ?out = [?out]"
          by (simp add: chunks_step chunks_Nil)
        from lt ih Completes z show ?thesis
          by (simp add: ch foretold_last)
      qed
    next
      case Fails
      with te obtain p1 where
        "loop_turn env (w0 @ [p]) (length w0) = (Raise, w0 @ [p1], Done)"
        by auto
      with Fails small z show ?thesis
        by (simp add: run_done foretold_end)
    next
      case Stalls
      with te obtain p1 where
        "loop_turn env (w0 @ [p]) (length w0) = (NoReturn, w0 @ [p1], Reading (length w0))"
        and "running p1 = running p"
        by auto
      with Stalls small z show ?thesis
        by (simp add: run_reading foretold_end)
    qed
  qed
qed

lemma run_created:
  assumes enc: "encoder env (command path) = Some evs"
  shows "\<exists>p' g'. run env (replicate (Suc k) Next) (w0, Created path)
             = (foretold (chunks CHUNK (stdout_of evs)) (reach (admits env) 0 evs)
                  (fate_of (admits env) 0 evs) (Suc k),
                w0 @ [p'], g')
           \<and> (fate_of (admits env) 0 evs = Stalls \<and> reach (admits env) 0 evs div CHUNK < Suc k
              \<longrightarrow> g' = Reading (length w0) \<and> running p')
           \<and> (Suc k \<le> reach (admits env) 0 evs div CHUNK
              \<longrightarrow> stdout_of (script p') = drop (Suc k * CHUNK) (stdout_of evs))"
proof -
  let ?p = "\<lparr>cmd = command path, script = evs, stderr_fill = 0, running = True\<rparr>"
  have "gen_next env (w0, Created path) = gen_next env (w0 @ [?p], Suspended (length w0))"
    using enc by (simp add: Popen_def)
  then have "run env (replicate (Suc k) Next) (w0, Created path)
             = run env (replicate (Suc k) Next) (w0 @ [?p], Suspended (length w0))"
    by simp
  with run_suspended [of env "Suc k" w0 ?p] show ?thesis by simp
qed

lemma run_unlaunched:
  assumes "encoder env (command path) = None"
  shows "run env (replicate k Next) (w0, Created path) = (ending Fails k, w0, if k = 0 then Created path else Done)"
proof (cases k)
  case 0
  then show ?thesis by simp
next
  case (Suc j)
  with assms show ?thesis by (simp add: Popen_def run_done)
qed

section \<open>The standard-error pipe\<close>

lemma pump_data_fate:
  "pump n a evs fill acc = Data d evs' fill' \<Longrightarrow> fate_of a fill' evs' = fate_of a fill evs"
  by (induction n a evs fill acc rule: pump.induct) (auto split: if_splits)

lemma pump_blocked_fate:
  "pump n a evs fill acc = Blocked evs' fill' \<Longrightarrow> fate_of a fill evs = Stalls"
  by (induction n a evs fill acc rule: pump.induct) (auto split: if_splits)

lemma fate_completes_fits:
  "fill \<le> pipe_capacity env \<Longrightarrow> fate_of (admits env) fill evs = Completes \<Longrightarrow>
   fill + stderr_total evs \<le> pipe_capacity env"
proof (induction evs arbitrary: fill)
  case Nil
  then show ?case by simp
next
  case (Cons e evs)
  show ?case
  proof (cases e)
    case (Out bs)
    with Cons show ?thesis by simp
  next
    case (Err k)
    with Cons.prems have ad: "admits env fill k"
      and fc: "fate_of (admits env) (fill + k) evs = Completes"
      by (simp_all split: if_splits)
    from ad have "fill + k \<le> pipe_capacity env" by (simp add: admits_def)
    from Cons.IH [OF this fc] Err show ?thesis by (simp add: add.assoc)
  next
    case ReadError
    with Cons.prems show ?thesis by simp
  qed
qed

lemma no_error_not_fails:
  "ReadError \<notin> set evs \<Longrightarrow> fate_of a fill evs \<noteq> Fails"
  by (induction a fill evs rule: fate_of.induct) auto

lemma accepted_not_stalls:
  assumes "fill + stderr_total evs \<le> pipe_capacity env"
    and "\<forall>f k. f + k \<le> fill + stderr_total evs \<longrightarrow> pipe_accepts env f k"
  shows "fate_of (admits env) fill evs \<noteq> Stalls"
  using assms
proof (induction evs arbitrary: fill)
  case Nil
  then show ?case by simp
next
  case (Cons e evs)
  show ?case
  proof (cases e)
    case (Out bs)
    with Cons show ?thesis by simp
  next
    case (Err k)
    with Cons.prems have a: "admits env fill k"
      by (simp add: admits_def)
    from Cons.prems Err have "fill + k + stderr_total evs \<le> pipe_capacity env"
      and "\<forall>f j. f + j \<le> fill + k + stderr_total evs \<longrightarrow> pipe_accepts env f j"
      by (simp_all add: add.assoc)
    from Cons.IH [OF this] a Err show ?thesis by simp
  next
    case ReadError
    then show ?thesis by simp
  qed
qed

lemma loop_turn_good:
  assumes "fate_of (admits env) (stderr_fill p) (script p) \<noteq> Stalls"
    and "loop_turn env (w0 @ [p]) (length w0) = (r, w', g')"
  shows "r \<noteq> NoReturn \<and> (\<forall>pid. g' \<noteq> Reading pid)
         \<and> (\<forall>pid. g' = Suspended pid \<longrightarrow>
               fate_of (admits env) (stderr_fill (last w')) (script (last w')) \<noteq> Stalls)"
proof (cases "pump CHUNK (admits env) (script p) (stderr_fill p) []")
  case (Data d evs fill)
  from pump_data_fate [OF Data] assms(1)
  have "fate_of (admits env) fill evs \<noteq> Stalls" by simp
  with assms(2) Data show ?thesis
    by (auto simp: loop_turn_def Let_def split: if_splits)
next
  case (Failed evs fill)
  with assms(2) show ?thesis
    by (auto simp: loop_turn_def)
next
  case (Blocked evs fill)
  from pump_blocked_fate [OF Blocked] assms(1) show ?thesis by simp
qed

lemma apply_op_good:
  assumes t: "tracks env w0 path (w, g)"
    and enc: "encoder env (command path) = Some evs"
    and f: "fate_of (admits env) 0 evs \<noteq> Stalls"
    and nr: "\<forall>pid. g \<noteq> Reading pid"
    and gs: "\<forall>pid. g = Suspended pid \<longrightarrow>
               fate_of (admits env) (stderr_fill (last w)) (script (last w)) \<noteq> Stalls"
    and op: "apply_op env x (w, g) = (r, w', g')"
  shows "r \<noteq> NoReturn \<and> (\<forall>pid. g' \<noteq> Reading pid)
         \<and> (\<forall>pid. g' = Suspended pid \<longrightarrow>
               fate_of (admits env) (stderr_fill (last w')) (script (last w')) \<noteq> Stalls)"
proof (cases x)
  case Next
  show ?thesis
  proof (cases g)
    case (Created q)
    with t have q: "q = path" "w = w0" by auto
    let ?p = "\<lparr>cmd = command path, script = evs, stderr_fill = 0, running = True\<rparr>"
    from op Next Created q enc
    have "loop_turn env (w0 @ [?p]) (length w0) = (r, w', g')"
      by (simp add: Popen_def)
    from loop_turn_good [OF _ this] f show ?thesis by simp
  next
    case (Suspended pid)
    with t have sp: "spawned env w0 path w" and pid: "pid = length w0" by auto
    from sp have w: "w = w0 @ [last w]" by (rule spawned_append)
    from op Next Suspended pid w
    have "loop_turn env (w0 @ [last w]) (length w0) = (r, w', g')" by simp
    from loop_turn_good [OF _ this] gs Suspended show ?thesis by simp
  next
    case (Reading pid)
    with nr show ?thesis by simp
  next
    case Done
    with op Next show ?thesis by auto
  qed
next
  case Close
  with op nr show ?thesis by (cases g) auto
next
  case Throw
  with op nr show ?thesis by (cases g) auto
qed

lemma run_good:
  assumes enc: "encoder env (command path) = Some evs"
    and f: "fate_of (admits env) 0 evs \<noteq> Stalls"
  shows "tracks env w0 path (w, g) \<Longrightarrow> \<forall>pid. g \<noteq> Reading pid \<Longrightarrow>
         \<forall>pid. g = Suspended pid \<longrightarrow>
               fate_of (admits env) (stderr_fill (last w)) (script (last w)) \<noteq> Stalls \<Longrightarrow>
         run env ops (w, g) = (rs, w', g') \<Longrightarrow>
         NoReturn \<notin> set rs \<and> (\<forall>pid. g' \<noteq> Reading pid)"
proof (induction ops arbitrary: w g rs)
  case Nil
  then show ?case by simp
next
  case (Cons x xs)
  obtain r w1 g1 where a: "apply_op env x (w, g) = (r, w1, g1)"
    by (cases "apply_op env x (w, g)") auto
  obtain rs1 where b: "run env xs (w1, g1) = (rs1, w', g')" and rs: "rs = r # rs1"
    using Cons.prems(4) a by (auto split: prod.splits)
  from apply_op_good [OF Cons.prems(1) enc f Cons.prems(2,3) a]
  have r: "r \<noteq> NoReturn" and g1: "\<forall>pid. g1 \<noteq> Reading pid"
    and s1: "\<forall>pid. g1 = Suspended pid \<longrightarrow>
               fate_of (admits env) (stderr_fill (last w1)) (script (last w1)) \<noteq> Stalls"
    by simp_all
  from apply_op_tracks [OF Cons.prems(1) a] have t1: "tracks env w0 path (w1, g1)" .
  from Cons.IH [OF t1 g1 s1 b] r rs show ?case by simp
qed

text \<open>
  C7 as the code has it. The generator never reads the encoder's standard error: at
  every point of a response, the bytes in the pipe and the bytes the encoder has yet
  to write add up to all it writes. When the pipe takes every write the encoder
  reaches on that footing, no operation on the generator fails to return. When it
  refuses one, a response that is read on yields the full chunks produced before
  that write and then stalls: \<open>next\<close> does not return, nor does anything after it,
  \<open>close()\<close> included, and the encoder stays running. That is the fate of every
  encoder without a read error that writes more to standard error than the pipe
  holds; an encoder that writes no more than that is safe only if the pipe accepts
  each write up to that amount.
\<close>

theorem stderr_never_drained:
  assumes "encoder env (command path) = Some evs"
  shows "(final_world env ops (w0, Created path) \<noteq> w0 \<longrightarrow>
            stderr_fill (last (final_world env ops (w0, Created path)))
            + stderr_total (script (last (final_world env ops (w0, Created path))))
            = stderr_total evs)
         \<and> (fate_of (admits env) 0 evs \<noteq> Stalls \<longrightarrow>
              NoReturn \<notin> set (steps env ops (w0, Created path))
              \<and> final_gen env ops (w0, Created path) \<noteq> Reading (length w0))
         \<and> (fate_of (admits env) 0 evs = Stalls \<longrightarrow>
              steps env (replicate k Next) (w0, Created path)
              = map Yield (take (min k (reach (admits env) 0 evs div CHUNK))
                             (chunks CHUNK (stdout_of evs)))
                @ replicate (k - reach (admits env) 0 evs div CHUNK) NoReturn
              \<and> (reach (admits env) 0 evs div CHUNK < k \<longrightarrow>
                   steps env (replicate k Next @ ops) (w0, Created path)
                   = steps env (replicate k Next) (w0, Created path)
                     @ replicate (length ops) NoReturn
                   \<and> final_gen env (replicate k Next @ ops) (w0, Created path)
                       = Reading (length w0)
                   \<and> running (last (final_world env (replicate k Next @ ops)
                                       (w0, Created path)))))
         \<and> (pipe_capacity env < stderr_total evs \<and> ReadError \<notin> set evs \<longrightarrow>
              fate_of (admits env) 0 evs = Stalls)
         \<and> (stderr_total evs \<le> pipe_capacity env
             \<and> (\<forall>fill n. fill + n \<le> stderr_total evs \<longrightarrow> pipe_accepts env fill n)
            \<longrightarrow> fate_of (admits env) 0 evs \<noteq> Stalls)"
proof -
  let ?s0 = "(w0, Created path)"
  let ?f = "fate_of (admits env) 0 evs"
  let ?j = "reach (admits env) 0 evs div CHUNK"
  obtain rs w g where r: "run env ops ?s0 = (rs, w, g)"
    by (cases "run env ops ?s0") auto
  from run_tracks [OF tracks_initial r] have t: "tracks env w0 path (w, g)" .
  have 1: "w \<noteq> w0 \<longrightarrow> stderr_fill (last w) + stderr_total (script (last w)) = stderr_total evs"
  proof
    assume "w \<noteq> w0"
    with t have "spawned env w0 path w" by (cases g) auto
    with assms show "stderr_fill (last w) + stderr_total (script (last w)) = stderr_total evs"
      by (simp add: spawned_def)
  qed
  have 2: "?f \<noteq> Stalls \<longrightarrow> NoReturn \<notin> set rs \<and> g \<noteq> Reading (length w0)"
    using run_good [OF assms _ tracks_initial _ _ r] by simp
  have 3: "?f = Stalls \<longrightarrow>
              steps env (replicate k Next) ?s0
              = map Yield (take (min k ?j) (chunks CHUNK (stdout_of evs)))
                @ replicate (k - ?j) NoReturn
              \<and> (?j < k \<longrightarrow>
                   steps env (replicate k Next @ ops) ?s0
                   = steps env (replicate k Next) ?s0 @ replicate (length ops) NoReturn
                   \<and> final_gen env (replicate k Next @ ops) ?s0 = Reading (length w0)
                   \<and> running (last (final_world env (replicate k Next @ ops) ?s0)))"
  proof
    assume st: "?f = Stalls"
    show "steps env (replicate k Next) ?s0
              = map Yield (take (min k ?j) (chunks CHUNK (stdout_of evs)))
                @ replicate (k - ?j) NoReturn
              \<and> (?j < k \<longrightarrow>
                   steps env (replicate k Next @ ops) ?s0
                   = steps env (replicate k Next) ?s0 @ replicate (length ops) NoReturn
                   \<and> final_gen env (replicate k Next @ ops) ?s0 = Reading (length w0)
                   \<and> running (last (final_world env (replicate k Next @ ops) ?s0)))"
    proof (cases k)
      case 0
      then show ?thesis by (simp add: steps_def)
    next
      case (Suc i)
      from run_created [OF assms, of i w0] st
      obtain p' g' where
        rc: "run env (replicate (Suc i) Next) ?s0
               = (foretold (chunks CHUNK (stdout_of evs)) (reach (admits env) 0 evs) Stalls (Suc i),
                  w0 @ [p'], g')"
        and sg: "?j < Suc i \<longrightarrow> g' = Reading (length w0) \<and> running p'"
        by auto
      have a: "steps env (replicate k Next) ?s0
              = map Yield (take (min k ?j) (chunks CHUNK (stdout_of evs)))
                @ replicate (k - ?j) NoReturn"
        using rc Suc by (simp add: steps_def foretold_def yield_count_def)
      have b: "?j < k \<longrightarrow>
                   steps env (replicate k Next @ ops) ?s0
                   = steps env (replicate k Next) ?s0 @ replicate (length ops) NoReturn
                   \<and> final_gen env (replicate k Next @ ops) ?s0 = Reading (length w0)
                   \<and> running (last (final_world env (replicate k Next @ ops) ?s0))"
      proof
        assume "?j < k"
        with sg Suc have g': "g' = Reading (length w0)" and rn: "running p'" by simp_all
        from rc g' Suc
        have rk: "run env (replicate k Next) ?s0
              = (foretold (chunks CHUNK (stdout_of evs)) (reach (admits env) 0 evs) Stalls k,
                 w0 @ [p'], Reading (length w0))"
          by simp
        have "run env (replicate k Next @ ops) ?s0
              = (foretold (chunks CHUNK (stdout_of evs)) (reach (admits env) 0 evs) Stalls k
                 @ replicate (length ops) NoReturn, w0 @ [p'], Reading (length w0))"
          by (subst run_append) (simp add: rk run_reading_any)
        with rk rn show "steps env (replicate k Next @ ops) ?s0
                   = steps env (replicate k Next) ?s0 @ replicate (length ops) NoReturn
                   \<and> final_gen env (replicate k Next @ ops) ?s0 = Reading (length w0)
                   \<and> running (last (final_world env (replicate k Next @ ops) ?s0))"
          by (simp add: steps_def final_gen_def final_world_def)
      qed
      from a b show ?thesis by simp
    qed
  qed
  have 4: "pipe_capacity env < stderr_total evs \<and> ReadError \<notin> set evs \<longrightarrow> ?f = Stalls"
  proof
    assume a: "pipe_capacity env < stderr_total evs \<and> ReadError \<notin> set evs"
    with fate_completes_fits [of 0 env evs] have "?f \<noteq> Completes" by auto
    moreover from a no_error_not_fails have "?f \<noteq> Fails" by blast
    ultimately show "?f = Stalls" by (cases ?f) auto
  qed
  have 5: "stderr_total evs \<le> pipe_capacity env
             \<and> (\<forall>fill n. fill + n \<le> stderr_total evs \<longrightarrow> pipe_accepts env fill n)
            \<longrightarrow> ?f \<noteq> Stalls"
    using accepted_not_stalls [of 0 evs env] by simp
  from 1 2 r have 12: "(final_world env ops ?s0 \<noteq> w0 \<longrightarrow>
            stderr_fill (last (final_world env ops ?s0))
            + stderr_total (script (last (final_world env ops ?s0))) = stderr_total evs)
         \<and> (?f \<noteq> Stalls \<longrightarrow> NoReturn \<notin> set (steps env ops ?s0)
              \<and> final_gen env ops ?s0 \<noteq> Reading (length w0))"
    by (simp add: steps_def final_world_def final_gen_def)
  from 12 3 4 5 show ?thesis by blast
qed

theorem stderr_never_drained_witness:
  "encoder paged_env (command ''D:/TV/a.mkv'') = Some [Err 3, Out ''abc'', Err 3, Out ''de'']
   \<and> stderr_total [Err 3, Out ''abc'', Err 3, Out ''de''] \<le> pipe_capacity paged_env
   \<and> fate_of (admits paged_env) 0 [Err 3, Out ''abc'', Err 3, Out ''de''] = Stalls
   \<and> steps paged_env [Next, Next] ([], Created ''D:/TV/a.mkv'') = [NoReturn, NoReturn]
   \<and> steps paged_env [Next, Close] ([], Created ''D:/TV/a.mkv'') = [NoReturn, NoReturn]
   \<and> final_gen paged_env [Next, Close] ([], Created ''D:/TV/a.mkv'') = Reading 0
   \<and> running (last (final_world paged_env [Next, Close] ([], Created ''D:/TV/a.mkv'')))
   \<and> encoder sample_env (command ''D:/TV/a.mkv'') = Some [Err 3, Out ''abc'', Err 3, Out ''de'']
   \<and> fate_of (admits sample_env) 0 [Err 3, Out ''abc'', Err 3, Out ''de''] = Completes
   \<and> NoReturn \<notin> set (steps sample_env [Next, Next, Close] ([], Created ''D:/TV/a.mkv''))
   \<and> stderr_fill (last (final_world sample_env [Next, Next, Close]
                            ([], Created ''D:/TV/a.mkv''))) = 6"
proof -
  let ?evs = "[Err 3, Out ''abc'', Err 3, Out ''de'']"
  let ?s = "([], Created ''D:/TV/a.mkv'')"
  have e: "encoder paged_env (command ''D:/TV/a.mkv'') = Some ?evs"
    by (simp add: paged_env_def sample_env_def)
  have t: "stderr_total ?evs \<le> pipe_capacity paged_env"
    by (simp add: paged_env_def sample_env_def)
  have f: "fate_of (admits paged_env) 0 ?evs = Stalls"
    by (simp add: admits_def paged_env_def sample_env_def)
  have j: "reach (admits paged_env) 0 ?evs div CHUNK = 0"
    by (simp add: admits_def paged_env_def sample_env_def CHUNK_def)
  from f j stderr_never_drained [OF e, of "[Close]" "[]" "Suc (Suc 0)"]
  have 1: "steps paged_env [Next, Next] ?s = [NoReturn, NoReturn]"
    by simp
  from f j stderr_never_drained [OF e, of "[Close]" "[]" "Suc 0"]
  have 2: "steps paged_env [Next, Close] ?s = [NoReturn, NoReturn]
           \<and> final_gen paged_env [Next, Close] ?s = Reading 0
           \<and> running (last (final_world paged_env [Next, Close] ?s))"
    by simp
  have e': "encoder sample_env (command ''D:/TV/a.mkv'') = Some ?evs"
    by (simp add: sample_env_def)
  have f': "fate_of (admits sample_env) 0 ?evs = Completes"
    by (simp add: admits_def sample_env_def)
  have w: "final_world sample_env [Next, Next, Close] ?s \<noteq> []"
    by (simp add: run_defs sample_env_def)
  from f' w stderr_never_drained [OF e', of "[Next, Next, Close]" "[]" 0]
  have 3: "NoReturn \<notin> set (steps sample_env [Next, Next, Close] ?s)
           \<and> stderr_fill (last (final_world sample_env [Next, Next, Close] ?s))
             + stderr_total (script (last (final_world sample_env [Next, Next, Close] ?s))) = 6"
    by simp
  have "script (last (final_world sample_env [Next, Next, Close] ?s)) = []"
    by (simp add: run_defs sample_env_def)
  with 3 have 4: "stderr_fill (last (final_world sample_env [Next, Next, Close] ?s)) = 6"
    by simp
  from e t f 1 2 e' f' 3 4 show ?thesis by simp
qed

text \<open>
  C7 as the spec states it fails: with a standard-error pipe of four bytes and an
  encoder that writes three bytes there twice, the first \<open>read\<close> never returns. The
  encoder is blocked on its second write, still running, and a \<open>close()\<close> cannot
  reach the generator.
\<close>

theorem encoder_blocks_on_full_stderr:
  "steps tight_env [Next] ([], Created ''D:/TV/a.mkv'') = [NoReturn]
   \<and> final_gen tight_env [Next] ([], Created ''D:/TV/a.mkv'') = Reading 0
   \<and> running (last (final_world tight_env [Next] ([], Created ''D:/TV/a.mkv'')))
   \<and> script (last (final_world tight_env [Next] ([], Created ''D:/TV/a.mkv'')))
       = [Err 3, Out ''de'']
   \<and> stderr_fill (last (final_world tight_env [Next] ([], Created ''D:/TV/a.mkv''))) = 3
   \<and> pipe_capacity tight_env = 4
   \<and> final_gen tight_env [Next, Close] ([], Created ''D:/TV/a.mkv'') = Reading 0"
  by (simp add: run_defs sample_env_def tight_env_def)


section \<open>The chunks of a response\<close>

lemma concat_chunks: "0 < n \<Longrightarrow> concat (chunks n xs) = xs"
proof (induction n xs rule: chunks.induct)
  case (1 n xs)
  show ?case
  proof (cases "xs = []")
    case True
    then show ?thesis by (simp add: chunks_Nil)
  next
    case False
    with 1 show ?thesis by (simp add: chunks_step)
  qed
qed

lemma chunks_sizes:
  "0 < n \<Longrightarrow> list_all (\<lambda>c. c \<noteq> [] \<and> length c \<le> n) (chunks n xs)"
proof (induction n xs rule: chunks.induct)
  case (1 n xs)
  show ?case
  proof (cases "xs = []")
    case True
    then show ?thesis by (simp add: chunks_Nil)
  next
    case False
    with 1 show ?thesis by (simp add: chunks_step)
  qed
qed

lemma chunks_full:
  "0 < n \<Longrightarrow> list_all (\<lambda>c. length c = n) (butlast (chunks n xs))"
proof (induction n xs rule: chunks.induct)
  case (1 n xs)
  show ?case
  proof (cases "xs = []")
    case True
    then show ?thesis by (simp add: chunks_Nil)
  next
    case False
    show ?thesis
    proof (cases "drop n xs = []")
      case True
      with False 1 show ?thesis by (simp add: chunks_step chunks_Nil)
    next
      case d: False
      then have "n < length xs" by simp
      moreover from d 1(2) have "chunks n (drop n xs) \<noteq> []"
        by (simp add: chunks_step)
      ultimately show ?thesis
        using False 1 by (simp add: chunks_step)
    qed
  qed
qed

lemma chunks_length: "0 < n \<Longrightarrow> length xs div n \<le> length (chunks n xs)"
proof (induction n xs rule: chunks.induct)
  case (1 n xs)
  show ?case
  proof (cases "xs = []")
    case True
    then show ?thesis by (simp add: chunks_Nil)
  next
    case False
    show ?thesis
    proof (cases "n \<le> length xs")
      case True
      with 1 False have "(length xs - n) div n \<le> length (chunks n (drop n xs))" by simp
      moreover from True 1(2) have "length xs div n = Suc ((length xs - n) div n)"
        by (simp add: le_div_geq)
      ultimately show ?thesis using False 1(2) by (simp add: chunks_step)
    next
      case False
      then show ?thesis by simp
    qed
  qed
qed

lemma yield_count_le:
  "yield_count f (reach a fill evs) (chunks CHUNK (stdout_of evs))
   \<le> length (chunks CHUNK (stdout_of evs))"
proof (cases f)
  case Completes
  then show ?thesis by (simp add: yield_count_def)
next
  case Fails
  have "reach a fill evs div CHUNK \<le> length (stdout_of evs) div CHUNK"
    using reach_le [of a fill evs] by (rule div_le_mono)
  with chunks_length [OF CHUNK_pos, of "stdout_of evs"] Fails show ?thesis
    by (simp add: yield_count_def)
next
  case Stalls
  have "reach a fill evs div CHUNK \<le> length (stdout_of evs) div CHUNK"
    using reach_le [of a fill evs] by (rule div_le_mono)
  with chunks_length [OF CHUNK_pos, of "stdout_of evs"] Stalls show ?thesis
    by (simp add: yield_count_def)
qed

text \<open>
  C9. For a regular file that the joined path names, the answer of \<open>/stream\<close> has
  content type \<open>video/mp4\<close> and the header \<open>Accept-Ranges: bytes\<close>. Each \<open>next\<close> on
  its body is one \<open>read\<close> of 1048576 bytes, and what \<open>k\<close> calls return is fixed by
  the encoder's run: the chunks of its output in order, one per call, until a
  \<open>read\<close> returns empty (\<open>StopIteration\<close>), raises, or does not return; an encoder
  that cannot be launched makes the first call raise. A run that completes yields
  every chunk. After \<open>k\<close> full chunks exactly \<open>k\<close> MiB of the output have been taken
  from the pipe. The chunks are the output cut every 1048576 bytes: none is empty,
  each but the last is full, and together they are the output.
\<close>

theorem stream_yields_one_mib_chunks:
  assumes "os_path_exists env (os_path_join BASE_DIR p)"
    and "os_path_isfile env (os_path_join BASE_DIR p)"
  shows "stream env p =
           StreamBody (Created (os_path_join BASE_DIR p)) ''video/mp4''
             [(''Accept-Ranges'', ''bytes'')]
         \<and> CHUNK = 1048576
         \<and> (encoder env (command (os_path_join BASE_DIR p)) = None \<longrightarrow>
              steps env (replicate k Next) (w0, Created (os_path_join BASE_DIR p))
              = ending Fails k)
         \<and> (encoder env (command (os_path_join BASE_DIR p)) = Some evs \<longrightarrow>
              steps env (replicate k Next) (w0, Created (os_path_join BASE_DIR p))
              = foretold (chunks CHUNK (stdout_of evs)) (reach (admits env) 0 evs)
                  (fate_of (admits env) 0 evs) k
              \<and> (fate_of (admits env) 0 evs = Completes \<longrightarrow>
                   steps env (replicate k Next) (w0, Created (os_path_join BASE_DIR p))
                   = expected (chunks CHUNK (stdout_of evs)) k)
              \<and> (0 < k \<and> k \<le> reach (admits env) 0 evs div CHUNK \<longrightarrow>
                   stdout_of (script (last (final_world env (replicate k Next)
                                              (w0, Created (os_path_join BASE_DIR p)))))
                   = drop (k * CHUNK) (stdout_of evs))
              \<and> yield_count (fate_of (admits env) 0 evs) (reach (admits env) 0 evs)
                   (chunks CHUNK (stdout_of evs))
                 \<le> length (chunks CHUNK (stdout_of evs)))
         \<and> concat (chunks CHUNK (stdout_of evs)) = stdout_of evs
         \<and> list_all (\<lambda>c. c \<noteq> [] \<and> length c \<le> CHUNK) (chunks CHUNK (stdout_of evs))
         \<and> list_all (\<lambda>c. length c = CHUNK) (butlast (chunks CHUNK (stdout_of evs)))"
proof -
  let ?path = "os_path_join BASE_DIR p"
  let ?cs = "chunks CHUNK (stdout_of evs)"
  let ?m = "reach (admits env) 0 evs"
  let ?f = "fate_of (admits env) 0 evs"
  have 1: "stream env p = StreamBody (Created ?path) ''video/mp4'' [(''Accept-Ranges'', ''bytes'')]"
    using assms by (simp add: stream_def)
  have 2: "CHUNK = 1048576"
    by (simp add: CHUNK_def)
  have 3: "encoder env (command ?path) = None \<longrightarrow>
             steps env (replicate k Next) (w0, Created ?path) = ending Fails k"
    by (simp add: steps_def run_unlaunched)
  have 4: "encoder env (command ?path) = Some evs \<longrightarrow>
              steps env (replicate k Next) (w0, Created ?path) = foretold ?cs ?m ?f k
              \<and> (0 < k \<and> k \<le> ?m div CHUNK \<longrightarrow>
                   stdout_of (script (last (final_world env (replicate k Next) (w0, Created ?path))))
                   = drop (k * CHUNK) (stdout_of evs))"
  proof
    assume enc: "encoder env (command ?path) = Some evs"
    show "steps env (replicate k Next) (w0, Created ?path) = foretold ?cs ?m ?f k
              \<and> (0 < k \<and> k \<le> ?m div CHUNK \<longrightarrow>
                   stdout_of (script (last (final_world env (replicate k Next) (w0, Created ?path))))
                   = drop (k * CHUNK) (stdout_of evs))"
    proof (cases k)
      case 0
      then show ?thesis by (simp add: steps_def foretold_0)
    next
      case (Suc j)
      from run_created [OF enc, of j w0]
      obtain p' g' where
        "run env (replicate (Suc j) Next) (w0, Created ?path)
           = (foretold ?cs ?m ?f (Suc j), w0 @ [p'], g')"
        and "Suc j \<le> ?m div CHUNK \<longrightarrow> stdout_of (script p') = drop (Suc j * CHUNK) (stdout_of evs)"
        by blast
      with Suc show ?thesis
        by (simp add: steps_def final_world_def)
    qed
  qed
  have 5: "encoder env (command ?path) = Some evs \<longrightarrow> ?f = Completes \<longrightarrow>
             steps env (replicate k Next) (w0, Created ?path) = expected ?cs k"
    using 4 by (auto simp: foretold_completes)
  note 6 = yield_count_le [of ?f "admits env" 0 evs]
  note 7 = concat_chunks [OF CHUNK_pos, of "stdout_of evs"]
  note 8 = chunks_sizes [OF CHUNK_pos, of "stdout_of evs"]
  note 9 = chunks_full [OF CHUNK_pos, of "stdout_of evs"]
  from 1 2 3 4 5 6 7 8 9 show ?thesis by blast
qed

theorem stream_yields_one_mib_chunks_witness:
  "os_path_exists long_env (os_path_join BASE_DIR ''Show/ep1.mp4'')
   \<and> os_path_isfile long_env (os_path_join BASE_DIR ''Show/ep1.mp4'')
   \<and> encoder long_env (command (os_path_join BASE_DIR ''Show/ep1.mp4'')) = Some long_script
   \<and> length (stdout_of long_script) = CHUNK + 5
   \<and> steps long_env [Next, Next, Next] ([], Created (os_path_join BASE_DIR ''Show/ep1.mp4''))
       = [Yield (replicate (CHUNK - 2) (CHR ''x'') @ ''ab''), Yield ''cdefg'', StopIteration]
   \<and> length (replicate (CHUNK - 2) (CHR ''x'') @ ''ab'') = 1048576
   \<and> os_path_exists tight_env (os_path_join BASE_DIR ''Show/ep1.mp4'')
   \<and> os_path_isfile tight_env (os_path_join BASE_DIR ''Show/ep1.mp4'')
   \<and> steps tight_env [Next, Next] ([], Created (os_path_join BASE_DIR ''Show/ep1.mp4''))
       = [NoReturn, NoReturn]"
proof -
  let ?J = "os_path_join BASE_DIR ''Show/ep1.mp4''"
  let ?c1 = "replicate (CHUNK - 2) (CHR ''x'') @ ''ab''"
  have a: "os_path_exists long_env ?J" and b: "os_path_isfile long_env ?J"
    by (simp_all add: path_defs char_defs sample_defs long_env_def)
  have e: "encoder long_env (command ?J) = Some long_script"
    by (simp add: long_env_def sample_env_def)
  have ar: "CHUNK - (CHUNK - 2) = 2" "CHUNK - 2 + 2 = CHUNK" "5 \<le> CHUNK"
    by (simp_all add: CHUNK_def)
  have out: "stdout_of long_script = replicate (CHUNK - 2) (CHR ''x'') @ ''abcdefg''"
    by (simp add: long_script_def)
  have len: "length (stdout_of long_script) = CHUNK + 5"
    using ar by (simp add: out)
  have f: "fate_of (admits long_env) 0 long_script = Completes"
    by (simp add: long_script_def admits_def long_env_def sample_env_def)
  have t: "take CHUNK (stdout_of long_script) = ?c1"
    using ar by (simp add: out)
  have d: "drop CHUNK (stdout_of long_script) = ''cdefg''"
    using ar by (simp add: out)
  have c2: "chunks CHUNK ''cdefg'' = [''cdefg'']"
    using ar CHUNK_pos by (simp add: chunks_step chunks_Nil)
  have ne: "stdout_of long_script \<noteq> []"
    by (simp add: out)
  have "chunks CHUNK (stdout_of long_script)
          = take CHUNK (stdout_of long_script) # chunks CHUNK (drop CHUNK (stdout_of long_script))"
    using CHUNK_pos ne by (rule chunks_step)
  then have cs: "chunks CHUNK (stdout_of long_script) = [?c1, ''cdefg'']"
    by (simp only: t d c2)
  from e f stream_yields_one_mib_chunks [OF a b, of "Suc (Suc (Suc 0))" "[]" long_script]
  have 1: "steps long_env [Next, Next, Next] ([], Created ?J)
             = [Yield ?c1, Yield ''cdefg'', StopIteration]"
    by (simp add: cs foretold_completes expected_def)
  have 2: "length ?c1 = 1048576"
    by (simp add: CHUNK_def)
  have a': "os_path_exists tight_env ?J" and b': "os_path_isfile tight_env ?J"
    by (simp_all add: path_defs char_defs sample_defs tight_env_def)
  let ?evs = "[Err 3, Out ''abc'', Err 3, Out ''de'']"
  have e': "encoder tight_env (command ?J) = Some ?evs"
    by (simp add: tight_env_def sample_env_def)
  have f': "fate_of (admits tight_env) 0 ?evs = Stalls"
    and m': "reach (admits tight_env) 0 ?evs div CHUNK = 0"
    by (simp_all add: admits_def tight_env_def sample_env_def CHUNK_def)
  from e' f' m' stream_yields_one_mib_chunks [OF a' b', of "Suc (Suc 0)" "[]" ?evs]
  have 3: "steps tight_env [Next, Next] ([], Created ?J) = [NoReturn, NoReturn]"
    by (simp add: foretold_def yield_count_def)
  from a b e len 1 2 a' b' 3 show ?thesis by simp
qed

end
